theory Spec2Isabelle
  imports Complex_Main "HOL-Library.Log_Nat" "HOL-Library.Multiset"
begin

section \<open>Values of the host language\<close>

text \<open>
  The scripts are Python. Integers are unbounded (\<open>int\<close>), strings are character
  lists, and every exception the scripts can raise is a value of \<open>py_error\<close>; a
  function that can raise returns \<open>py_error + 'a\<close>, with \<open>Inl\<close> for the exception.
\<close>

datatype py_error = IndexError | ValueError | KeyError | OverflowError | IntegrityError

subsection \<open>Binary floating point\<close>

text \<open>
  A Python \<open>float\<close> is an IEEE 754 binary64 number. The model keeps the rational
  number a float holds and rounds after every operation: \<open>fl x\<close> is the binary64
  number nearest to \<open>x\<close> (53 significant bits, ties to the even significand). The
  exponent is not bounded: every number in these scripts lies far inside the normal
  range of binary64 (between \<open>2^-1022\<close> and \<open>2^1024\<close>), where the two agree.
\<close>


definition round_half_even :: "rat \<Rightarrow> int" where
  "round_half_even x =
     (let f = \<lfloor>x\<rfloor>; d = x - of_int f
      in if d < 1 / 2 then f
         else if 1 / 2 < d then f + 1
         else if even f then f else f + 1)"

text \<open>\<open>binade x\<close> is the exponent \<open>e\<close> with \<open>2^e \<le> |x| < 2^(e+1)\<close>, for \<open>x \<noteq> 0\<close>.\<close>

definition binade :: "rat \<Rightarrow> int" where
  "binade x =
     (let (p, q) = quotient_of \<bar>x\<bar>; e0 = bitlen p - bitlen q
      in if 2 powi e0 \<le> \<bar>x\<bar> then e0 else e0 - 1)"

definition fl :: "rat \<Rightarrow> rat" where
  "fl x =
     (if x = 0 then 0
      else let ulp = 2 powi (binade x - 52)
           in of_int (round_half_even (x / ulp)) * ulp)"

text \<open>A float is the rational number it holds, itself the result of a rounding.\<close>

datatype pyfloat = Float rat


text \<open>\<open>a * b\<close> and \<open>a + b\<close> on floats: the exact result, rounded.\<close>

fun fmul :: "pyfloat \<Rightarrow> pyfloat \<Rightarrow> pyfloat" where
  "fmul (Float a) (Float b) = Float (fl (a * b))"

fun fadd :: "pyfloat \<Rightarrow> pyfloat \<Rightarrow> pyfloat" where
  "fadd (Float a) (Float b) = Float (fl (a + b))"

declare fmul.simps [simp del] fadd.simps [simp del]

text \<open>The float an integer operand is converted to in mixed arithmetic.\<close>

definition float_of_int :: "int \<Rightarrow> pyfloat" where
  "float_of_int i = Float (fl (of_int i))"

subsection \<open>Strings of numbers\<close>

definition digit_char :: "nat \<Rightarrow> char" where
  "digit_char d = char_of (48 + d)"

text \<open>The decimal digits of an integer that is not negative.\<close>

function digits :: "int \<Rightarrow> string" where
  "digits n =
     (if n < 10 then [digit_char (nat n)] else digits (n div 10) @ [digit_char (nat (n mod 10))])"
  by pat_completeness auto
termination
  by (relation "measure nat") auto

declare digits.simps [simp del]

text \<open>\<open>str(i)\<close> for an integer.\<close>

definition str_int :: "int \<Rightarrow> string" where
  "str_int i = (if i < 0 then CHR ''-'' # digits (- i) else digits i)"

text \<open>
  The decimal with two fractional digits nearest to a rational number, ties to even; the
  sign of a negative number is kept also when it rounds to zero.
\<close>

definition two_decimals :: "rat \<Rightarrow> string" where
  "two_decimals x =
     (let c = round_half_even (\<bar>x\<bar> * 100)
      in (if x < 0 then ''-'' else '''') @ digits (c div 100) @ ''.'' @
         [digit_char (nat (c mod 100 div 10)), digit_char (nat (c mod 10))])"

text \<open>\<open>f"{x:.2f}"\<close> formats the exact value of the float.\<close>

fun format_2f :: "pyfloat \<Rightarrow> string" where
  "format_2f (Float x) = two_decimals x"

declare format_2f.simps [simp del]

definition lower_char :: "char \<Rightarrow> char" where
  "lower_char c =
     (let n = (of_char c :: nat) in if 65 \<le> n \<and> n \<le> 90 then char_of (n + 32) else c)"

text \<open>\<open>s.lower()\<close>, on the ASCII strings of the name pools.\<close>

definition lower :: "string \<Rightarrow> string" where
  "lower s = map lower_char s"

subsection \<open>The random source\<close>

text \<open>
  The module \<open>random\<close> is not part of the repository. Its generator is a sequence
  of raw draws and the number of draws consumed so far; \<open>randbelow n\<close> consumes one
  draw and reduces it into \<open>{0..<n}\<close>. The theorems below hold for every sequence of
  draws, so for every seed and every generator algorithm.
\<close>

type_synonym rng = "(nat \<Rightarrow> nat) \<times> nat"

definition randbelow :: "nat \<Rightarrow> rng \<Rightarrow> nat \<times> rng" where
  "randbelow n g = (fst g (snd g) mod n, (fst g, Suc (snd g)))"

text \<open>\<open>random.randint(a, b)\<close>, which raises \<open>ValueError\<close> on an empty range.\<close>

definition randint :: "int \<Rightarrow> int \<Rightarrow> rng \<Rightarrow> py_error + (int \<times> rng)" where
  "randint a b g =
     (if b < a then Inl ValueError
      else let (k, g') = randbelow (nat (b - a + 1)) g in Inr (a + int k, g'))"

text \<open>\<open>random.choice(seq)\<close>, which raises \<open>IndexError\<close> on an empty sequence.\<close>

definition choice :: "'a list \<Rightarrow> rng \<Rightarrow> py_error + ('a \<times> rng)" where
  "choice xs g =
     (if xs = [] then Inl IndexError
      else let (k, g') = randbelow (length xs) g in Inr (xs ! k, g'))"

text \<open>
  \<open>random.sample(population, k)\<close>: \<open>ValueError\<close> when \<open>k\<close> exceeds the population,
  otherwise \<open>k\<close> draws from a pool of the positions not yet selected; the selected
  position is refilled with the last element of the pool, which then shrinks by one.
\<close>

fun sample_pool :: "'a list \<Rightarrow> nat \<Rightarrow> rng \<Rightarrow> 'a list \<times> rng" where
  "sample_pool pool 0 g = ([], g)"
| "sample_pool pool (Suc k) g =
     (let (j, g1) = randbelow (length pool) g;
          (rest, g2) = sample_pool (butlast (pool[j := last pool])) k g1
      in (pool ! j # rest, g2))"

definition sample :: "'a list \<Rightarrow> int \<Rightarrow> rng \<Rightarrow> py_error + ('a list \<times> rng)" where
  "sample population k g =
     (if k < 0 \<or> int (length population) < k then Inl ValueError
      else Inr (sample_pool population (nat k) g))"

section \<open>The generator: \<open>scripts/generate_data.py\<close>\<close>

definition CITIES :: "string list" where
  "CITIES = [''New York'', ''San Francisco'', ''Chicago'', ''Austin'', ''Seattle'', ''Boston'']"

definition FIRST_NAMES :: "string list" where
  "FIRST_NAMES = [''Alex'', ''Jordan'', ''Taylor'', ''Riley'', ''Casey'', ''Morgan'', ''Jamie'',
     ''Avery'', ''Reese'', ''Skyler'', ''Parker'', ''Rowan'', ''Hayden'', ''Quinn'', ''Elliot'']"

definition LAST_NAMES :: "string list" where
  "LAST_NAMES = [''Smith'', ''Johnson'', ''Williams'', ''Brown'', ''Jones'', ''Garcia'',
     ''Miller'', ''Davis'', ''Lopez'', ''Gonzalez'', ''Wilson'', ''Anderson'', ''Thomas'',
     ''Jackson'', ''Martinez'']"

text \<open>
  The catalog is a dictionary literal; a Python dictionary iterates in insertion order,
  so it is an association list. A price is a float literal: the float nearest to the
  decimal written in the source.
\<close>

definition PRODUCT_CATEGORIES :: "(string \<times> (string \<times> pyfloat) list) list" where
  "PRODUCT_CATEGORIES =
     [(''Electronics'',
        [(''Wireless Earbuds'', Float (fl (7999 / 100))),
         (''Smartphone Case'', Float (fl (1999 / 100))),
         (''Bluetooth Speaker'', Float (fl (4999 / 100))),
         (''Portable Charger'', Float (fl (3999 / 100))),
         (''Smartwatch'', Float (fl (12999 / 100)))]),
      (''Home'',
        [(''Ceramic Mug Set'', Float (fl (2499 / 100))),
         (''Throw Blanket'', Float (fl (3499 / 100))),
         (''LED Desk Lamp'', Float (fl (4550 / 100))),
         (''Aromatherapy Diffuser'', Float (fl (2999 / 100))),
         (''Indoor Plant Kit'', Float (fl (2749 / 100)))]),
      (''Fitness'',
        [(''Yoga Mat'', Float (fl (3200 / 100))),
         (''Resistance Bands'', Float (fl (2150 / 100))),
         (''Insulated Water Bottle'', Float (fl (2500 / 100))),
         (''Foam Roller'', Float (fl (2875 / 100))),
         (''Adjustable Dumbbell'', Float (fl (19900 / 100)))]),
      (''Books'',
        [(''Productivity Planner'', Float (fl (1895 / 100))),
         (''Design Thinking Guide'', Float (fl (2200 / 100))),
         (''Modern Cooking'', Float (fl (3000 / 100))),
         (''Mindfulness Workbook'', Float (fl (1650 / 100))),
         (''Startup Playbook'', Float (fl (2600 / 100)))])]"

definition COMMENTS :: "string list" where
  "COMMENTS =
     [''Loved it! Highly recommend.'',
      ''Works as expected. Would buy again.'',
      ''Quality could be better, but good value overall.'',
      ''Fantastic customer service and fast shipping.'',
      ''Not satisfied with the durability.'',
      ''Exceeded my expectations!'',
      ''Makes daily life so much easier.'',
      ''Gifted it to a friend and they loved it.'',
      ''Helpful addition to my routine.'',
      ''Packaging was damaged, but product is fine.'']"

subsection \<open>Rows\<close>

text \<open>
  Each row is a dictionary with a fixed set of keys; the field names carry the table's
  initial, since two records cannot share a field name.
\<close>

record customer =
  c_customer_id :: int
  c_name :: string
  c_email :: string
  c_city :: string

record product =
  p_product_id :: int
  p_name :: string
  p_category :: string
  p_price :: string

subsection \<open>\<open>generate_customers\<close>\<close>

fun customers_loop :: "int list \<Rightarrow> customer list \<Rightarrow> rng \<Rightarrow> py_error + (customer list \<times> rng)" where
  "customers_loop [] customers g = Inr (customers, g)"
| "customers_loop (idx # idxs) customers g =
     (case choice FIRST_NAMES g of Inl e \<Rightarrow> Inl e | Inr (first, g1) \<Rightarrow>
      case choice LAST_NAMES g1 of Inl e \<Rightarrow> Inl e | Inr (lastn, g2) \<Rightarrow>
      case choice CITIES g2 of Inl e \<Rightarrow> Inl e | Inr (city, g3) \<Rightarrow>
        customers_loop idxs
          (customers @
             [\<lparr>c_customer_id = idx + 1,
               c_name = first @ '' '' @ lastn,
               c_email = lower first @ ''.'' @ lower lastn @ ''@example.com'',
               c_city = city\<rparr>])
          g3)"

text \<open>\<open>range(count)\<close> is empty for a count that is not positive.\<close>

definition range_upto :: "int \<Rightarrow> int list" where
  "range_upto n = map int [0..<nat n]"

definition generate_customers :: "int \<Rightarrow> rng \<Rightarrow> py_error + (customer list \<times> rng)" where
  "generate_customers n g = customers_loop (range_upto n) [] g"

subsection \<open>\<open>generate_products\<close>\<close>

fun products_items_loop ::
  "string \<Rightarrow> (string \<times> pyfloat) list \<Rightarrow> product list \<Rightarrow> int \<Rightarrow> product list \<times> int" where
  "products_items_loop category [] products pid = (products, pid)"
| "products_items_loop category ((name, price) # items) products pid =
     products_items_loop category items
       (products @
          [\<lparr>p_product_id = pid, p_name = name, p_category = category,
            p_price = format_2f price\<rparr>])
       (pid + 1)"

fun products_loop ::
  "(string \<times> (string \<times> pyfloat) list) list \<Rightarrow> product list \<Rightarrow> int \<Rightarrow> product list \<times> int" where
  "products_loop [] products pid = (products, pid)"
| "products_loop ((category, items) # cats) products pid =
     (let (products', pid') = products_items_loop category items products pid
      in products_loop cats products' pid')"

definition generate_products :: "product list" where
  "generate_products = fst (products_loop PRODUCT_CATEGORIES [] 1)"


record order =
  o_order_id :: int
  o_customer_id :: int
  o_order_date :: string
  o_total_amount :: string

record order_item =
  oi_order_item_id :: int
  oi_order_id :: int
  oi_product_id :: int
  oi_quantity :: int

record review =
  r_review_id :: int
  r_customer_id :: int
  r_product_id :: int
  r_rating :: int
  r_comment :: string

subsection \<open>Dates\<close>

text \<open>
  A naive \<open>datetime\<close> is its number of microseconds since 1970-01-01 00:00. The wall
  clock is the sequence of its readings and the number of readings taken.
\<close>

datatype datetime = Datetime int

type_synonym clock = "(nat \<Rightarrow> datetime) \<times> nat"

definition datetime_now :: "clock \<Rightarrow> datetime \<times> clock" where
  "datetime_now c = (fst c (snd c), (fst c, Suc (snd c)))"

text \<open>\<open>datetime.min\<close>, the first instant of the year 1: day \<open>-719162\<close> from 1970-01-01.\<close>

definition datetime_min :: int where
  "datetime_min = - 719162 * 86400000000"

text \<open>
  \<open>dt - delta\<close> for a \<open>delta\<close> that is not negative: \<open>OverflowError\<close> when the result
  is before \<open>datetime.min\<close>.
\<close>

fun datetime_sub :: "datetime \<Rightarrow> int \<Rightarrow> py_error + datetime" where
  "datetime_sub (Datetime us) delta =
     (if us - delta < datetime_min then Inl OverflowError else Inr (Datetime (us - delta)))"

text \<open>\<open>timedelta(days=d, hours=h)\<close>, in microseconds.\<close>

definition timedelta :: "int \<Rightarrow> int \<Rightarrow> int" where
  "timedelta d h = (d * 24 + h) * 3600000000"

text \<open>The year, month and day of a day number (days since 1970-01-01), Gregorian.\<close>

definition ymd_of_days :: "int \<Rightarrow> int \<times> int \<times> int" where
  "ymd_of_days z0 =
     (let z = z0 + 719468;
          era = z div 146097;
          doe = z - era * 146097;
          yoe = (doe - doe div 1460 + doe div 36524 - doe div 146096) div 365;
          doy = doe - (365 * yoe + yoe div 4 - yoe div 100);
          mp = (5 * doy + 2) div 153;
          d = doy - (153 * mp + 2) div 5 + 1;
          m = (if mp < 10 then mp + 3 else mp - 9);
          y = yoe + era * 400 + (if m \<le> 2 then 1 else 0)
      in (y, m, d))"

definition zero_pad :: "nat \<Rightarrow> string \<Rightarrow> string" where
  "zero_pad w s = replicate (w - length s) (CHR ''0'') @ s"

text \<open>\<open>dt.strftime("%Y-%m-%d")\<close>: the time of day is dropped.\<close>

fun strftime_ymd :: "datetime \<Rightarrow> string" where
  "strftime_ymd (Datetime us) =
     (let (y, m, d) = ymd_of_days (us div 86400000000)
      in zero_pad 4 (str_int y) @ ''-'' @ zero_pad 2 (str_int m) @ ''-'' @ zero_pad 2 (str_int d))"

declare strftime_ymd.simps [simp del]

definition daterange :: "int \<Rightarrow> clock \<Rightarrow> rng \<Rightarrow> py_error + (datetime \<times> clock \<times> rng)" where
  "daterange days_back c g =
     (let (base_date, c') = datetime_now c in
      case randint 0 days_back g of Inl e \<Rightarrow> Inl e | Inr (delta_days, g1) \<Rightarrow>
      case randint 0 23 g1 of Inl e \<Rightarrow> Inl e | Inr (hours, g2) \<Rightarrow>
      case datetime_sub base_date (timedelta delta_days hours) of Inl e \<Rightarrow> Inl e
      | Inr dt \<Rightarrow> Inr (dt, c', g2))"

subsection \<open>Reading a price back\<close>

definition digit_val :: "char \<Rightarrow> nat option" where
  "digit_val c =
     (let n = (of_char c :: nat) in if 48 \<le> n \<and> n \<le> 57 then Some (n - 48) else None)"

fun digits_val :: "string \<Rightarrow> nat \<Rightarrow> nat option" where
  "digits_val [] acc = Some acc"
| "digits_val (c # cs) acc =
     (case digit_val c of None \<Rightarrow> None | Some d \<Rightarrow> digits_val cs (10 * acc + d))"

text \<open>
  The exact decimal a fixed-point string denotes: an optional sign, digits, and
  optionally a point and more digits, with at least one digit in all.
\<close>

definition decimal_of_str :: "string \<Rightarrow> rat option" where
  "decimal_of_str s =
     (let (neg, body) =
            (case s of c # cs \<Rightarrow>
               if c = CHR ''-'' then (True, cs) else if c = CHR ''+'' then (False, cs) else (False, s)
             | [] \<Rightarrow> (False, s));
          ip = takeWhile (\<lambda>c. c \<noteq> CHR ''.'') body;
          fp = drop 1 (dropWhile (\<lambda>c. c \<noteq> CHR ''.'') body)
      in if ip = [] \<and> fp = [] then None
         else case digits_val ip 0 of None \<Rightarrow> None | Some i \<Rightarrow>
              case digits_val fp 0 of None \<Rightarrow> None | Some f \<Rightarrow>
                let v = of_nat i + of_nat f / 10 ^ length fp
                in Some (if neg then - v else v))"

text \<open>
  \<open>float(s)\<close>: the float nearest to the decimal, \<open>ValueError\<close> when the string is not
  a number. The model reads the fixed-point spelling that \<open>generate_products\<close> writes;
  the other spellings Python accepts (exponents, \<open>inf\<close>, \<open>nan\<close>, underscores, blanks)
  do not occur in a price and are not modelled.
\<close>

definition float_of_str :: "string \<Rightarrow> py_error + pyfloat" where
  "float_of_str s = (case decimal_of_str s of None \<Rightarrow> Inl ValueError | Some v \<Rightarrow> Inr (Float (fl v)))"

subsection \<open>\<open>generate_orders\<close>\<close>

text \<open>The dictionary comprehension that maps a product id to its price as a float.\<close>

fun product_lookup_loop ::
  "product list \<Rightarrow> (int \<rightharpoonup> pyfloat) \<Rightarrow> py_error + (int \<rightharpoonup> pyfloat)" where
  "product_lookup_loop [] m = Inr m"
| "product_lookup_loop (p # ps) m =
     (case float_of_str (p_price p) of Inl e \<Rightarrow> Inl e | Inr f \<Rightarrow>
        product_lookup_loop ps (m(p_product_id p \<mapsto> f)))"

text \<open>The loop over the chosen products of one order.\<close>

fun items_loop ::
  "product list \<Rightarrow> (int \<rightharpoonup> pyfloat) \<Rightarrow> int \<Rightarrow> order_item list \<Rightarrow> pyfloat \<Rightarrow> int \<Rightarrow> rng \<Rightarrow>
     py_error + (order_item list \<times> pyfloat \<times> int \<times> rng)" where
  "items_loop [] lookup order_id items subtotal order_item_id g =
     Inr (items, subtotal, order_item_id, g)"
| "items_loop (product # chosen) lookup order_id items subtotal order_item_id g =
     (let pid = p_product_id product in
      case randint 1 3 g of Inl e \<Rightarrow> Inl e | Inr (quantity, g1) \<Rightarrow>
      case lookup pid of None \<Rightarrow> Inl KeyError | Some price \<Rightarrow>
        let line_total = fmul price (float_of_int quantity)
        in items_loop chosen lookup order_id
             (items @
                [\<lparr>oi_order_item_id = order_item_id, oi_order_id = order_id,
                  oi_product_id = pid, oi_quantity = quantity\<rparr>])
             (fadd subtotal line_total) (order_item_id + 1) g1)"

text \<open>The variables the two outer loops update.\<close>

record gen_state =
  orders :: "order list"
  order_items :: "order_item list"
  next_order_id :: int
  next_order_item_id :: int
  gen_rng :: rng
  gen_clock :: clock

text \<open>One order: the body of the inner \<open>for _ in range(customer_orders)\<close>.\<close>

definition one_order ::
  "customer \<Rightarrow> product list \<Rightarrow> (int \<rightharpoonup> pyfloat) \<Rightarrow> gen_state \<Rightarrow> py_error + gen_state" where
  "one_order customer products lookup st =
     (case daterange 120 (gen_clock st) (gen_rng st) of Inl e \<Rightarrow> Inl e
      | Inr (order_date, c1, g1) \<Rightarrow>
      case randint 1 4 g1 of Inl e \<Rightarrow> Inl e | Inr (item_count, g2) \<Rightarrow>
      case sample products item_count g2 of Inl e \<Rightarrow> Inl e | Inr (chosen_products, g3) \<Rightarrow>
      case items_loop chosen_products lookup (next_order_id st) [] (Float 0) (next_order_item_id st) g3 of
        Inl e \<Rightarrow> Inl e
      | Inr (items, subtotal, order_item_id', g4) \<Rightarrow>
          Inr \<lparr>orders = orders st @
                  [\<lparr>o_order_id = next_order_id st,
                    o_customer_id = c_customer_id customer,
                    o_order_date = strftime_ymd order_date,
                    o_total_amount = format_2f subtotal\<rparr>],
                order_items = order_items st @ items,
                next_order_id = next_order_id st + 1,
                next_order_item_id = order_item_id',
                gen_rng = g4,
                gen_clock = c1\<rparr>)"

fun customer_orders_loop ::
  "nat \<Rightarrow> customer \<Rightarrow> product list \<Rightarrow> (int \<rightharpoonup> pyfloat) \<Rightarrow> gen_state \<Rightarrow> py_error + gen_state" where
  "customer_orders_loop 0 customer products lookup st = Inr st"
| "customer_orders_loop (Suc n) customer products lookup st =
     (case one_order customer products lookup st of Inl e \<Rightarrow> Inl e
      | Inr st' \<Rightarrow> customer_orders_loop n customer products lookup st')"

fun orders_loop ::
  "customer list \<Rightarrow> product list \<Rightarrow> (int \<rightharpoonup> pyfloat) \<Rightarrow> gen_state \<Rightarrow> py_error + gen_state" where
  "orders_loop [] products lookup st = Inr st"
| "orders_loop (customer # customers) products lookup st =
     (case randint 0 3 (gen_rng st) of Inl e \<Rightarrow> Inl e | Inr (customer_orders, g1) \<Rightarrow>
      case customer_orders_loop (nat customer_orders) customer products lookup
             (st\<lparr>gen_rng := g1\<rparr>) of
        Inl e \<Rightarrow> Inl e
      | Inr st' \<Rightarrow> orders_loop customers products lookup st')"

definition generate_orders ::
  "customer list \<Rightarrow> product list \<Rightarrow> rng \<Rightarrow> clock \<Rightarrow> py_error + gen_state" where
  "generate_orders customers products g c =
     (case product_lookup_loop products Map.empty of Inl e \<Rightarrow> Inl e
      | Inr lookup \<Rightarrow>
          orders_loop customers products lookup
            \<lparr>orders = [], order_items = [], next_order_id = 1, next_order_item_id = 1,
             gen_rng = g, gen_clock = c\<rparr>)"

subsection \<open>\<open>generate_reviews\<close>\<close>

text \<open>
  One pass of the body of \<open>for _ in range(28)\<close>, on the variables the loop updates:
  the reviews, the next review id, the set of pairs already used and the generator.
  The \<open>continue\<close> of the source leaves all but the generator as they were.
\<close>

type_synonym review_state = "review list \<times> int \<times> (int \<times> int) set \<times> rng"

definition review_attempt ::
  "customer list \<Rightarrow> product list \<Rightarrow> review_state \<Rightarrow> py_error + review_state" where
  "review_attempt customers products st =
     (case st of (reviews, review_id, customer_product_pairs, g) \<Rightarrow>
      case choice customers g of Inl e \<Rightarrow> Inl e | Inr (customer, g1) \<Rightarrow>
      case choice products g1 of Inl e \<Rightarrow> Inl e | Inr (product, g2) \<Rightarrow>
        let key = (c_customer_id customer, p_product_id product) in
        if key \<in> customer_product_pairs then Inr (reviews, review_id, customer_product_pairs, g2)
        else
          case randint 1 5 g2 of Inl e \<Rightarrow> Inl e | Inr (rating, g3) \<Rightarrow>
          case choice COMMENTS g3 of Inl e \<Rightarrow> Inl e | Inr (comment, g4) \<Rightarrow>
            Inr (reviews @
                   [\<lparr>r_review_id = review_id,
                     r_customer_id = c_customer_id customer,
                     r_product_id = p_product_id product,
                     r_rating = rating,
                     r_comment = comment\<rparr>],
                 review_id + 1, insert key customer_product_pairs, g4))"

fun reviews_loop ::
  "nat \<Rightarrow> customer list \<Rightarrow> product list \<Rightarrow> review_state \<Rightarrow> py_error + review_state" where
  "reviews_loop 0 customers products st = Inr st"
| "reviews_loop (Suc n) customers products st =
     (case review_attempt customers products st of Inl e \<Rightarrow> Inl e
      | Inr st' \<Rightarrow> reviews_loop n customers products st')"

definition generate_reviews ::
  "customer list \<Rightarrow> product list \<Rightarrow> rng \<Rightarrow> py_error + (review list \<times> rng)" where
  "generate_reviews customers products g =
     (case reviews_loop 28 customers products ([], 1, {}, g) of Inl e \<Rightarrow> Inl e
      | Inr (reviews, review_id, customer_product_pairs, g') \<Rightarrow> Inr (reviews, g'))"

subsection \<open>The generation steps of \<open>main\<close>\<close>

text \<open>
  The five tables \<open>main\<close> builds before it writes them. \<open>main\<close> calls
  \<open>generate_customers\<close> with its default count, 24; the count is a parameter here.
\<close>

record dataset =
  ds_customers :: "customer list"
  ds_products :: "product list"
  ds_orders :: "order list"
  ds_order_items :: "order_item list"
  ds_reviews :: "review list"

definition generate_all :: "int \<Rightarrow> rng \<Rightarrow> clock \<Rightarrow> py_error + dataset" where
  "generate_all n g c =
     (case generate_customers n g of Inl e \<Rightarrow> Inl e | Inr (customers, g1) \<Rightarrow>
      case generate_orders customers generate_products g1 c of Inl e \<Rightarrow> Inl e | Inr st \<Rightarrow>
      case generate_reviews customers generate_products (gen_rng st) of Inl e \<Rightarrow> Inl e
      | Inr (reviews, g3) \<Rightarrow>
          Inr \<lparr>ds_customers = customers, ds_products = generate_products,
               ds_orders = orders st, ds_order_items = order_items st,
               ds_reviews = reviews\<rparr>)"

section \<open>Vocabulary of the properties\<close>

text \<open>
  The entries of a catalog in declaration order, category by category; the product an
  entry stands for under a given id; and a list numbered from a first id.
\<close>

definition catalog_entries :: "(string \<times> (string \<times> pyfloat) list) list \<Rightarrow> (string \<times> string \<times> pyfloat) list" where
  "catalog_entries cat = concat (map (\<lambda>(category, items). map (\<lambda>(name, price). (category, name, price)) items) cat)"

definition product_of_entry :: "int \<Rightarrow> string \<times> string \<times> pyfloat \<Rightarrow> product" where
  "product_of_entry pid e =
     (case e of (category, name, price) \<Rightarrow>
        \<lparr>p_product_id = pid, p_name = name, p_category = category, p_price = format_2f price\<rparr>)"

fun number_from :: "int \<Rightarrow> 'a list \<Rightarrow> (int \<times> 'a) list" where
  "number_from i [] = []"
| "number_from i (x # xs) = (i, x) # number_from (i + 1) xs"

definition line_total :: "(int \<rightharpoonup> pyfloat) \<Rightarrow> order_item \<Rightarrow> pyfloat" where
  "line_total lookup i =
     (case lookup (oi_product_id i) of None \<Rightarrow> Float 0
      | Some price \<Rightarrow> fmul price (float_of_int (oi_quantity i)))"

definition float_subtotal :: "(int \<rightharpoonup> pyfloat) \<Rightarrow> order_item list \<Rightarrow> pyfloat \<Rightarrow> pyfloat" where
  "float_subtotal lookup items s = foldl (\<lambda>s i. fadd s (line_total lookup i)) s items"

definition order_lines :: "int \<Rightarrow> order_item list \<Rightarrow> order_item list" where
  "order_lines oid items = filter (\<lambda>i. oi_order_id i = oid) items"

definition orders_inv ::
  "customer list \<Rightarrow> product list \<Rightarrow> (int \<rightharpoonup> pyfloat) \<Rightarrow> gen_state \<Rightarrow> bool" where
  "orders_inv cs ps lookup st \<longleftrightarrow>
     map o_order_id (orders st) = [1..next_order_id st - 1] \<and>
     map oi_order_item_id (order_items st) = [1..next_order_item_id st - 1] \<and>
     1 \<le> next_order_id st \<and> 1 \<le> next_order_item_id st \<and>
     sorted (map oi_order_id (order_items st)) \<and>
     (\<forall>i\<in>set (order_items st).
        1 \<le> oi_order_id i \<and> oi_order_id i < next_order_id st \<and>
        1 \<le> oi_quantity i \<and> oi_quantity i \<le> 3 \<and> lookup (oi_product_id i) \<noteq> None) \<and>
     (\<forall>ord\<in>set (orders st).
        o_customer_id ord \<in> c_customer_id ` set cs \<and>
        length (order_lines (o_order_id ord) (order_items st)) \<in> {1..4} \<and>
        (\<exists>chosen. map oi_product_id (order_lines (o_order_id ord) (order_items st)) =
                     map p_product_id chosen \<and> mset chosen \<subseteq># mset ps) \<and>
        o_total_amount ord =
          format_2f (float_subtotal lookup (order_lines (o_order_id ord) (order_items st)) (Float 0)))"

definition review_key :: "review \<Rightarrow> int \<times> int" where
  "review_key r = (r_customer_id r, r_product_id r)"

definition reviews_inv :: "customer list \<Rightarrow> product list \<Rightarrow> review_state \<Rightarrow> bool" where
  "reviews_inv cs ps st \<longleftrightarrow>
     (case st of (reviews, review_id, pairs, g) \<Rightarrow>
        pairs = set (map review_key reviews) \<and>
        distinct (map review_key reviews) \<and>
        map r_review_id reviews = [1..review_id - 1] \<and> 1 \<le> review_id \<and>
        (\<forall>r\<in>set reviews.
           r_customer_id r \<in> c_customer_id ` set cs \<and> r_product_id r \<in> p_product_id ` set ps \<and>
           1 \<le> r_rating r \<and> r_rating r \<le> 5 \<and> r_comment r \<in> set COMMENTS))"

definition example_rng :: rng where
  "example_rng = (\<lambda>i. if i = 3 then 1 else 0, 0)"

definition example_clock :: clock where
  "example_clock = (\<lambda>i. Datetime 1793750400000000, 0)"

definition customer_runs :: "customer list \<Rightarrow> nat list \<Rightarrow> int list" where
  "customer_runs cs ks = concat (map (\<lambda>(cu, k). replicate k (c_customer_id cu)) (zip cs ks))"

definition draws_of :: "nat list \<Rightarrow> nat \<Rightarrow> nat" where
  "draws_of xs i = (if i < length xs then xs ! i else 0)"

definition three_customer_rng :: rng where
  "three_customer_rng =
     (draws_of
        [0, 0, 0, 1, 1, 1, 2, 2, 2,
         2, 1, 0, 1, 10, 1, 1, 0, 2, 0, 0, 0, 2,
         0,
         1, 0, 0, 2, 16, 17, 16, 0, 0, 0,
         0, 0, 0, 0, 1, 1, 4, 1], 0)"

text \<open>
  The exact unit price of a product: the decimal its price field denotes. The exact total
  of a list of order items: the sum of quantity times unit price, with no rounding.
\<close>

definition unit_price :: "product list \<Rightarrow> int \<Rightarrow> rat" where
  "unit_price ps pid =
     (case find (\<lambda>p. p_product_id p = pid) ps of None \<Rightarrow> 0
      | Some p \<Rightarrow> (case decimal_of_str (p_price p) of None \<Rightarrow> 0 | Some v \<Rightarrow> v))"

definition exact_total :: "product list \<Rightarrow> order_item list \<Rightarrow> rat" where
  "exact_total ps items =
     sum_list (map (\<lambda>i. of_int (oi_quantity i) * unit_price ps (oi_product_id i)) items)"

text \<open>Rounding to two decimal places, halves up.\<close>

definition round_2dp :: "rat \<Rightarrow> rat" where
  "round_2dp x = of_int \<lfloor>x * 100 + 1 / 2\<rfloor> / 100"

section \<open>The revenue query of \<open>query_data.py\<close>\<close>












section \<open>Ingestion: \<open>scripts/ingest_data.py\<close>\<close>

text \<open>
  The flat file \<open>customers.csv\<close>, as \<open>csv.DictWriter\<close> writes it and
  \<open>csv.DictReader\<close> reads it: a header and the records, each a list of fields. The
  quoting of the csv module is not modelled; the reader returns the fields the writer was
  given.
\<close>

type_synonym csv_file = "string list \<times> string list list"

text \<open>\<open>write_csv\<close> on the customers: \<open>writerow\<close> writes the values of a row under
  the field names \<open>customer_id\<close>, \<open>name\<close>, \<open>email\<close>, \<open>city\<close>, each as
  \<open>str\<close> gives it.\<close>

definition customer_fields :: "customer \<Rightarrow> string list" where
  "customer_fields c = [str_int (c_customer_id c), c_name c, c_email c, c_city c]"

definition write_customers_csv :: "customer list \<Rightarrow> csv_file" where
  "write_customers_csv cs = ([''customer_id'', ''name'', ''email'', ''city''], map customer_fields cs)"

text \<open>\<open>load_csv_rows\<close>: one dictionary for each record, from the header's names to the
  fields; of two equal names the later one counts.\<close>

definition load_csv_rows :: "csv_file \<Rightarrow> (string \<rightharpoonup> string) list" where
  "load_csv_rows f = map (\<lambda>fs. map_of (rev (zip (fst f) fs))) (snd f)"

text \<open>\<open>int\<close> of a string: an optional sign and decimal digits, at least one; a
  \<open>ValueError\<close> otherwise. The blanks and underscores that \<open>int\<close> also accepts are
  left out.\<close>

definition int_of_str :: "string \<Rightarrow> py_error + int" where
  "int_of_str s =
     (let (neg, body) =
            (case s of c # cs \<Rightarrow>
               if c = CHR ''-'' then (True, cs) else if c = CHR ''+'' then (False, cs) else (False, s)
             | [] \<Rightarrow> (False, s))
      in if body = [] then Inl ValueError
         else case digits_val body 0 of None \<Rightarrow> Inl ValueError
              | Some n \<Rightarrow> Inr (if neg then - int n else int n))"

text \<open>A row of the table \<open>customers\<close>: \<open>customer_id INTEGER PRIMARY KEY\<close>,
  \<open>name\<close>, \<open>email TEXT NOT NULL UNIQUE\<close>, \<open>city\<close>.\<close>

record customer_row =
  cr_customer_id :: int
  cr_name :: string
  cr_email :: string
  cr_city :: string

definition row_field :: "(string \<rightharpoonup> string) \<Rightarrow> string \<Rightarrow> py_error + string" where
  "row_field row k = (case row k of None \<Rightarrow> Inl KeyError | Some v \<Rightarrow> Inr v)"

text \<open>\<open>cast_row\<close> for the table \<open>customers\<close>.\<close>

definition cast_row :: "(string \<rightharpoonup> string) \<Rightarrow> py_error + customer_row" where
  "cast_row row =
     (case row_field row ''customer_id'' of Inl e \<Rightarrow> Inl e | Inr a \<Rightarrow>
      case int_of_str a of Inl e \<Rightarrow> Inl e | Inr i \<Rightarrow>
      case row_field row ''name'' of Inl e \<Rightarrow> Inl e | Inr n \<Rightarrow>
      case row_field row ''email'' of Inl e \<Rightarrow> Inl e | Inr m \<Rightarrow>
      case row_field row ''city'' of Inl e \<Rightarrow> Inl e | Inr t \<Rightarrow>
        Inr \<lparr>cr_customer_id = i, cr_name = n, cr_email = m, cr_city = t\<rparr>)"

fun cast_rows :: "(string \<rightharpoonup> string) list \<Rightarrow> py_error + customer_row list" where
  "cast_rows [] = Inr []"
| "cast_rows (row # rows) =
     (case cast_row row of Inl e \<Rightarrow> Inl e | Inr r \<Rightarrow>
      case cast_rows rows of Inl e \<Rightarrow> Inl e | Inr rs \<Rightarrow> Inr (r # rs))"

text \<open>
  \<open>INSERT OR REPLACE INTO customers VALUES (?,?,?,?)\<close>: the rows already in the table
  with the new row's primary key or with its email are deleted, then the new row is
  inserted. The table is kept in the order of its primary key.
\<close>

definition insert_or_replace :: "customer_row \<Rightarrow> customer_row list \<Rightarrow> customer_row list" where
  "insert_or_replace r tbl =
     insort_key cr_customer_id r
       (filter (\<lambda>x. cr_customer_id x \<noteq> cr_customer_id r \<and> cr_email x \<noteq> cr_email r) tbl)"

text \<open>\<open>executemany\<close>: one insertion for each row, in order. An integer outside the 64
  bits of the store is an \<open>OverflowError\<close>.\<close>

fun executemany :: "customer_row list \<Rightarrow> customer_row list \<Rightarrow> py_error + customer_row list" where
  "executemany [] tbl = Inr tbl"
| "executemany (r # rs) tbl =
     (if - (2 ^ 63) \<le> cr_customer_id r \<and> cr_customer_id r < 2 ^ 63
      then executemany rs (insert_or_replace r tbl) else Inl OverflowError)"

definition insert_rows :: "(string \<rightharpoonup> string) list \<Rightarrow> customer_row list \<Rightarrow> py_error + customer_row list" where
  "insert_rows rows tbl =
     (if rows = [] then Inr tbl
      else case cast_rows rows of Inl e \<Rightarrow> Inl e | Inr casted \<Rightarrow> executemany casted tbl)"

text \<open>The customers step of \<open>main\<close>: the database file is deleted first, so the table
  starts empty.\<close>

definition ingest_customers :: "csv_file \<Rightarrow> py_error + customer_row list" where
  "ingest_customers f = insert_rows (load_csv_rows f) []"

text \<open>Draws that give the first and the third customer the same names.\<close>

definition shared_name_rng :: rng where
  "shared_name_rng = (draws_of [0, 0, 0, 1, 1, 1, 0, 0, 2], 0)"

section \<open>The files \<open>main\<close> of \<open>generate_data.py\<close> writes\<close>

text \<open>
  The text \<open>csv.DictWriter\<close> writes with its default dialect: a field that holds a comma,
  a double quote, a carriage return or a line feed is put in double quotes, with its double
  quotes doubled; the fields of a record are joined by commas and the record ends with
  carriage return and line feed. The files are written in UTF-8 and hold ASCII only, so the
  text is the bytes.
\<close>

definition needs_quote :: "char \<Rightarrow> bool" where
  "needs_quote c \<longleftrightarrow> c = CHR '','' \<or> c = CHR 0x22 \<or> c = CHR 0x0D \<or> c = CHR 0x0A"

definition csv_field :: "string \<Rightarrow> string" where
  "csv_field s =
     (if list_ex needs_quote s
      then [CHR 0x22] @ concat (map (\<lambda>c. if c = CHR 0x22 then [c, c] else [c]) s) @ [CHR 0x22]
      else s)"

fun join_fields :: "string list \<Rightarrow> string" where
  "join_fields [] = []"
| "join_fields [f] = f"
| "join_fields (f # f' # fs) = f @ '','' @ join_fields (f' # fs)"

definition csv_record :: "string list \<Rightarrow> string" where
  "csv_record fs = join_fields (map csv_field fs) @ [CHR 0x0D, CHR 0x0A]"

text \<open>\<open>write_csv\<close>: \<open>writeheader\<close>, then \<open>writerow\<close> for each row.\<close>

definition csv_text :: "csv_file \<Rightarrow> string" where
  "csv_text f = concat (map csv_record (fst f # snd f))"

definition write_products_csv :: "product list \<Rightarrow> csv_file" where
  "write_products_csv ps =
     ([''product_id'', ''name'', ''category'', ''price''],
      map (\<lambda>p. [str_int (p_product_id p), p_name p, p_category p, p_price p]) ps)"

definition write_orders_csv :: "order list \<Rightarrow> csv_file" where
  "write_orders_csv os =
     ([''order_id'', ''customer_id'', ''order_date'', ''total_amount''],
      map (\<lambda>ord. [str_int (o_order_id ord), str_int (o_customer_id ord), o_order_date ord,
                  o_total_amount ord]) os)"

definition write_order_items_csv :: "order_item list \<Rightarrow> csv_file" where
  "write_order_items_csv items =
     ([''order_item_id'', ''order_id'', ''product_id'', ''quantity''],
      map (\<lambda>i. [str_int (oi_order_item_id i), str_int (oi_order_id i), str_int (oi_product_id i),
                str_int (oi_quantity i)]) items)"

definition write_reviews_csv :: "review list \<Rightarrow> csv_file" where
  "write_reviews_csv rs =
     ([''review_id'', ''customer_id'', ''product_id'', ''rating'', ''comment''],
      map (\<lambda>r. [str_int (r_review_id r), str_int (r_customer_id r), str_int (r_product_id r),
                str_int (r_rating r), r_comment r]) rs)"

text \<open>The five files of one run.\<close>

definition customers_csv :: "dataset \<Rightarrow> string" where
  "customers_csv d = csv_text (write_customers_csv (ds_customers d))"

definition products_csv :: "dataset \<Rightarrow> string" where
  "products_csv d = csv_text (write_products_csv (ds_products d))"

definition orders_csv :: "dataset \<Rightarrow> string" where
  "orders_csv d = csv_text (write_orders_csv (ds_orders d))"

definition order_items_csv :: "dataset \<Rightarrow> string" where
  "order_items_csv d = csv_text (write_order_items_csv (ds_order_items d))"

definition reviews_csv :: "dataset \<Rightarrow> string" where
  "reviews_csv d = csv_text (write_reviews_csv (ds_reviews d))"

text \<open>An order without its date, and two states of the order loops that differ at most in
  the dates of their orders and in their clocks.\<close>

definition undated :: "order \<Rightarrow> int \<times> int \<times> string" where
  "undated ord = (o_order_id ord, o_customer_id ord, o_total_amount ord)"

text \<open>The tables of a run with the date of every order emptied.\<close>

definition blank_dates :: "dataset \<Rightarrow> dataset" where
  "blank_dates d = d\<lparr>ds_orders := map (\<lambda>ord. ord\<lparr>o_order_date := []\<rparr>) (ds_orders d)\<rparr>"

definition same_but_dates :: "gen_state \<Rightarrow> gen_state \<Rightarrow> bool" where
  "same_but_dates s t \<longleftrightarrow>
     map undated (orders s) = map undated (orders t) \<and> order_items s = order_items t \<and>
     next_order_id s = next_order_id t \<and> next_order_item_id s = next_order_item_id t \<and>
     gen_rng s = gen_rng t"

text \<open>A clock that reads one day after \<open>example_clock\<close>.\<close>

definition next_day_clock :: clock where
  "next_day_clock = (\<lambda>i. Datetime 1793836800000000, 0)"

section \<open>Properties of the generator\<close>


lemma choice_nonempty:
  "xs \<noteq> [] \<Longrightarrow> choice xs g = Inr (xs ! (fst g (snd g) mod length xs), (fst g, Suc (snd g)))"
  by (simp add: choice_def randbelow_def)

lemma choice_Inr_mem: "choice xs g = Inr (x, g') \<Longrightarrow> x \<in> set xs"
  by (auto simp: choice_def randbelow_def split: if_splits)

lemma pools_nonempty: "FIRST_NAMES \<noteq> []" "LAST_NAMES \<noteq> []" "CITIES \<noteq> []" "COMMENTS \<noteq> []"
  by (simp_all add: FIRST_NAMES_def LAST_NAMES_def CITIES_def COMMENTS_def)

lemma customers_loop_ids:
  "\<exists>cs g'. customers_loop idxs acc g = Inr (cs, g') \<and>
      map c_customer_id cs = map c_customer_id acc @ map (\<lambda>i. i + 1) idxs"
proof (induction idxs arbitrary: acc g)
  case Nil
  show ?case by simp
next
  case (Cons idx idxs)
  have "\<exists>c g3. customers_loop (idx # idxs) acc g = customers_loop idxs (acc @ [c]) g3 \<and>
          c_customer_id c = idx + 1"
    by (fastforce simp: choice_nonempty pools_nonempty)
  then obtain c g3 where
    step: "customers_loop (idx # idxs) acc g = customers_loop idxs (acc @ [c]) g3" and
    cid: "c_customer_id c = idx + 1"
    by blast
  from Cons.IH [of "acc @ [c]" g3] show ?case
    unfolding step by (simp add: cid)
qed

lemma map_succ_upt: "map (\<lambda>i. int i + 1) [0..<k] = [1..int k]"
proof (induction k)
  case 0
  show ?case by simp
next
  case (Suc k)
  have "[1..int (Suc k)] = [1..int k] @ [int k + 1]"
    by (simp add: upto_rec2 add.commute)
  with Suc show ?case by simp
qed

lemma range_upto_succ: "map (\<lambda>i. i + 1) (range_upto n) = [1..n]"
proof (cases "0 \<le> n")
  case True
  then show ?thesis using map_succ_upt [of "nat n"] by (simp add: range_upto_def comp_def)
next
  case False
  then show ?thesis by (simp add: range_upto_def)
qed

lemma generate_customers_ids:
  "\<exists>cs g'. generate_customers n g = Inr (cs, g') \<and> map c_customer_id cs = [1..n]"
  using customers_loop_ids [of "range_upto n" "[]" g]
  by (simp add: generate_customers_def range_upto_succ)

lemma number_from_append:
  "number_from i (xs @ ys) = number_from i xs @ number_from (i + int (length xs)) ys"
  by (induction xs arbitrary: i) (simp_all add: add.assoc)

lemma number_from_map:
  "number_from i (map f xs) = map (\<lambda>(k, x). (k, f x)) (number_from i xs)"
  by (induction xs arbitrary: i) auto

lemma products_items_loop_eq:
  "products_items_loop category items acc pid =
     (acc @ map (\<lambda>(i, name, price). product_of_entry i (category, name, price)) (number_from pid items),
      pid + int (length items))"
  by (induction items arbitrary: acc pid) (auto simp: product_of_entry_def)

lemma products_loop_eq:
  "products_loop cat acc pid =
     (acc @ map (\<lambda>(i, e). product_of_entry i e) (number_from pid (catalog_entries cat)),
      pid + int (length (catalog_entries cat)))"
proof (induction cat arbitrary: acc pid)
  case Nil
  show ?case by (simp add: catalog_entries_def)
next
  case (Cons c cat)
  obtain category items where c: "c = (category, items)" by (cases c)
  show ?case
    using Cons.IH
    by (simp add: c products_items_loop_eq catalog_entries_def number_from_append number_from_map comp_def
        split_def add.assoc)
qed

lemma map_fst_number_from: "map fst (number_from i xs) = [i..i + int (length xs) - 1]"
proof (induction xs arbitrary: i)
  case Nil
  show ?case by simp
next
  case (Cons x xs)
  have "[i..i + int (length (x # xs)) - 1] = i # [i + 1..i + 1 + int (length xs) - 1]"
    by (subst upto_rec1) (simp_all add: algebra_simps)
  with Cons show ?case by simp
qed

lemma map_snd_number_from: "map snd (number_from i xs) = xs"
  by (induction xs arbitrary: i) auto

lemma length_catalog: "length (catalog_entries PRODUCT_CATEGORIES) = 20"
  by (simp add: catalog_entries_def PRODUCT_CATEGORIES_def)

lemma generate_products_eq:
  "generate_products = map (\<lambda>(i, e). product_of_entry i e) (number_from 1 (catalog_entries PRODUCT_CATEGORIES))"
  by (simp add: generate_products_def products_loop_eq)

lemma generate_products_ids: "map p_product_id generate_products = [1..20]"
proof -
  have "map p_product_id generate_products = map fst (number_from 1 (catalog_entries PRODUCT_CATEGORIES))"
    by (simp add: generate_products_eq comp_def split_def product_of_entry_def)
  then show ?thesis by (simp add: map_fst_number_from length_catalog)
qed

lemma generate_products_entries:
  "map (\<lambda>p. (p_category p, p_name p, p_price p)) generate_products =
     map (\<lambda>(category, name, price). (category, name, format_2f price)) (catalog_entries PRODUCT_CATEGORIES)"
proof -
  have "map (\<lambda>p. (p_category p, p_name p, p_price p)) generate_products =
     map (\<lambda>(category, name, price). (category, name, format_2f price))
       (map snd (number_from 1 (catalog_entries PRODUCT_CATEGORIES)))"
    by (simp add: generate_products_eq comp_def split_def product_of_entry_def)
  then show ?thesis by (simp add: map_snd_number_from)
qed

text \<open>
  Claim C7. For a run with customer count \<open>n\<close> the generator does not fail and the
  customer ids are exactly \<open>1..n\<close> in order; the product ids are exactly \<open>1..20\<close>,
  and the products, in id order, are the entries of the catalog in declaration order,
  category by category, one product for each entry, with the price written with two
  decimals.
\<close>

theorem generated_ids_sequential: 
  "(\<exists>cs g'. generate_customers n g = Inr (cs, g') \<and> map c_customer_id cs = [1..n]) \<and>
   map p_product_id generate_products = [1..20] \<and>
   map (\<lambda>p. (p_category p, p_name p, p_price p)) generate_products =
     map (\<lambda>(category, name, price). (category, name, format_2f price)) (catalog_entries PRODUCT_CATEGORIES)"
  using generate_customers_ids generate_products_ids generate_products_entries by simp

lemma randint_Inr:
  "a \<le> b \<Longrightarrow> \<exists>k. randint a b g = Inr (k, (fst g, Suc (snd g))) \<and> a \<le> k \<and> k \<le> b"
proof -
  assume ab: "a \<le> b"
  have "int (fst g (snd g) mod nat (b - a + 1)) < b - a + 1"
    using ab by (metis add_nonneg_pos int_nat_eq less_le_not_le mod_less_divisor of_nat_less_iff
        diff_ge_0_iff_ge zero_less_one nat_0_le of_nat_0_less_iff zless_add1_eq)
  then show ?thesis using ab by (simp add: randint_def randbelow_def)
qed

lemma randint_range: "randint a b g = Inr (k, g') \<Longrightarrow> a \<le> k \<and> k \<le> b"
proof (cases "a \<le> b")
  case True
  assume "randint a b g = Inr (k, g')"
  with randint_Inr [OF True, of g] show ?thesis by auto
next
  case False
  assume "randint a b g = Inr (k, g')"
  with False show ?thesis by (simp add: randint_def)
qed

lemma randint_rng: "randint a b g = Inr (k, g') \<Longrightarrow> g' = (fst g, Suc (snd g))"
  by (auto simp: randint_def randbelow_def split: if_splits)

lemma mset_pool_step:
  assumes "j < length pool"
  shows "mset (butlast (pool[j := last pool])) = mset pool - {#pool ! j#}"
proof -
  from assms have "pool \<noteq> []" by auto
  then obtain ys l where pool: "pool = ys @ [l]" by (metis rev_exhaust)
  show ?thesis
  proof (cases "j < length ys")
    case True
    then have "butlast (pool[j := last pool]) = ys[j := l]"
      by (simp add: pool list_update_append)
    moreover have "pool ! j = ys ! j" using True by (simp add: pool nth_append)
    moreover have "mset (ys[j := l]) = mset ys - {#ys ! j#} + {#l#}"
      using True by (simp add: mset_update)
    moreover have "ys ! j \<in># mset ys" using True by simp
    ultimately show ?thesis by (simp add: pool)
  next
    case False
    with assms have j: "j = length ys" by (simp add: pool)
    then show ?thesis by (simp add: pool)
  qed
qed

lemma sample_pool_mset:
  "k \<le> length pool \<Longrightarrow> mset (fst (sample_pool pool k g)) \<subseteq># mset pool"
proof (induction k arbitrary: pool g)
  case 0
  show ?case by simp
next
  case (Suc k)
  define j where "j = fst g (snd g) mod length pool"
  define pool' where "pool' = butlast (pool[j := last pool])"
  from Suc.prems have pos: "0 < length pool" by auto
  then have j: "j < length pool" by (simp add: j_def)
  have len: "k \<le> length pool'" using Suc.prems by (simp add: pool'_def)
  have m: "mset pool' = mset pool - {#pool ! j#}"
    unfolding pool'_def by (rule mset_pool_step [OF j])
  have "mset (fst (sample_pool pool' k (fst g, Suc (snd g)))) \<subseteq># mset pool - {#pool ! j#}"
    using Suc.IH [OF len] by (simp add: m)
  moreover have "pool ! j \<in># mset pool" using j by simp
  ultimately have "add_mset (pool ! j) (mset (fst (sample_pool pool' k (fst g, Suc (snd g))))) \<subseteq># mset pool"
    by (metis insert_DiffM mset_subset_eq_add_mset_cancel)
  then show ?case
    by (simp add: randbelow_def j_def pool'_def split_def Let_def)
qed

lemma sample_pool_length: "length (fst (sample_pool pool k g)) = k"
  by (induction k arbitrary: pool g) (simp_all add: split_def Let_def)

lemma sample_Inr:
  "sample ps k g = Inr (chosen, g') \<Longrightarrow> mset chosen \<subseteq># mset ps \<and> int (length chosen) = k"
  using sample_pool_mset [of "nat k" ps g] sample_pool_length [of ps "nat k" g]
  by (auto simp: sample_def split: if_splits)

lemma sample_defined:
  "0 \<le> k \<Longrightarrow> k \<le> int (length ps) \<Longrightarrow> sample ps k g = Inr (sample_pool ps (nat k) g)"
  by (simp add: sample_def)

lemma items_loop_Inr:
  "items_loop chosen lookup oid items s oiid g = Inr (items', s', oiid', g') \<Longrightarrow>
     \<exists>new. items' = items @ new \<and>
       map oi_product_id new = map p_product_id chosen \<and>
       map oi_order_item_id new = [oiid..oiid + int (length chosen) - 1] \<and>
       (\<forall>i\<in>set new. oi_order_id i = oid \<and> 1 \<le> oi_quantity i \<and> oi_quantity i \<le> 3 \<and>
           lookup (oi_product_id i) \<noteq> None) \<and>
       oiid' = oiid + int (length chosen) \<and>
       s' = float_subtotal lookup new s"
proof (induction chosen arbitrary: items s oiid g)
  case Nil
  then show ?case by (simp add: float_subtotal_def)
next
  case (Cons product chosen)
  from Cons.prems obtain quantity g1 price where
    q: "randint 1 3 g = Inr (quantity, g1)" and
    l: "lookup (p_product_id product) = Some price" and
    r: "items_loop chosen lookup oid
          (items @ [\<lparr>oi_order_item_id = oiid, oi_order_id = oid,
                     oi_product_id = p_product_id product, oi_quantity = quantity\<rparr>])
          (fadd s (fmul price (float_of_int quantity))) (oiid + 1) g1 = Inr (items', s', oiid', g')"
    by (auto simp: Let_def split: sum.splits option.splits)
  define it where "it = \<lparr>oi_order_item_id = oiid, oi_order_id = oid,
                     oi_product_id = p_product_id product, oi_quantity = quantity\<rparr>"
  from Cons.IH [OF r] obtain new where
    n: "items' = (items @ [it]) @ new"
       "map oi_product_id new = map p_product_id chosen"
       "map oi_order_item_id new = [oiid + 1..oiid + 1 + int (length chosen) - 1]"
       "\<forall>i\<in>set new. oi_order_id i = oid \<and> 1 \<le> oi_quantity i \<and> oi_quantity i \<le> 3 \<and>
           lookup (oi_product_id i) \<noteq> None"
       "oiid' = oiid + 1 + int (length chosen)"
       "s' = float_subtotal lookup new (fadd s (fmul price (float_of_int quantity)))"
    unfolding it_def by blast
  have qr: "1 \<le> quantity \<and> quantity \<le> 3" using randint_range [OF q] .
  have ids: "[oiid..oiid + int (length (product # chosen)) - 1] =
      oiid # [oiid + 1..oiid + 1 + int (length chosen) - 1]"
    by (subst upto_rec1) (simp_all add: algebra_simps)
  have lt: "line_total lookup it = fmul price (float_of_int quantity)"
    by (simp add: line_total_def it_def l)
  show ?case
  proof (intro exI [of _ "it # new"] conjI)
    show "items' = items @ it # new" using n(1) by simp
    show "map oi_product_id (it # new) = map p_product_id (product # chosen)"
      using n(2) by (simp add: it_def)
    show "map oi_order_item_id (it # new) = [oiid..oiid + int (length (product # chosen)) - 1]"
      unfolding ids using n(3) by (simp add: it_def)
    show "\<forall>i\<in>set (it # new). oi_order_id i = oid \<and> 1 \<le> oi_quantity i \<and> oi_quantity i \<le> 3 \<and>
           lookup (oi_product_id i) \<noteq> None"
      using n(4) qr l by (simp add: it_def)
    show "oiid' = oiid + int (length (product # chosen))" using n(5) by simp
    show "s' = float_subtotal lookup (it # new) s"
      using n(6) by (simp add: float_subtotal_def lt)
  qed
qed

lemma one_order_Inr:
  assumes "one_order c ps lookup st = Inr st'"
  shows "\<exists>ord new chosen.
      orders st' = orders st @ [ord] \<and> order_items st' = order_items st @ new \<and>
      next_order_id st' = next_order_id st + 1 \<and>
      next_order_item_id st' = next_order_item_id st + int (length new) \<and>
      o_order_id ord = next_order_id st \<and> o_customer_id ord = c_customer_id c \<and>
      o_total_amount ord = format_2f (float_subtotal lookup new (Float 0)) \<and>
      map oi_order_item_id new =
        [next_order_item_id st..next_order_item_id st + int (length new) - 1] \<and>
      (\<forall>i\<in>set new. oi_order_id i = next_order_id st \<and> 1 \<le> oi_quantity i \<and>
          oi_quantity i \<le> 3 \<and> lookup (oi_product_id i) \<noteq> None) \<and>
      map oi_product_id new = map p_product_id chosen \<and> mset chosen \<subseteq># mset ps \<and>
      length new \<in> {1..4}"
proof -
  from assms obtain order_date c1 g1 item_count g2 chosen g3 items subtotal oiid' g4 where
    d: "daterange 120 (gen_clock st) (gen_rng st) = Inr (order_date, c1, g1)" and
    k: "randint 1 4 g1 = Inr (item_count, g2)" and
    s: "sample ps item_count g2 = Inr (chosen, g3)" and
    l: "items_loop chosen lookup (next_order_id st) [] (Float 0) (next_order_item_id st) g3 =
          Inr (items, subtotal, oiid', g4)" and
    st': "st' = \<lparr>orders = orders st @
                  [\<lparr>o_order_id = next_order_id st,
                    o_customer_id = c_customer_id c,
                    o_order_date = strftime_ymd order_date,
                    o_total_amount = format_2f subtotal\<rparr>],
                order_items = order_items st @ items,
                next_order_id = next_order_id st + 1,
                next_order_item_id = oiid',
                gen_rng = g4,
                gen_clock = c1\<rparr>"
    by (auto simp: one_order_def split: sum.splits prod.splits)
  from sample_Inr [OF s] have ch: "mset chosen \<subseteq># mset ps" "int (length chosen) = item_count"
    by simp_all
  from randint_range [OF k] have kr: "1 \<le> item_count" "item_count \<le> 4" by simp_all
  from items_loop_Inr [OF l] obtain new where
    n: "items = new"
       "map oi_product_id new = map p_product_id chosen"
       "map oi_order_item_id new =
          [next_order_item_id st..next_order_item_id st + int (length chosen) - 1]"
       "\<forall>i\<in>set new. oi_order_id i = next_order_id st \<and> 1 \<le> oi_quantity i \<and>
           oi_quantity i \<le> 3 \<and> lookup (oi_product_id i) \<noteq> None"
       "oiid' = next_order_item_id st + int (length chosen)"
       "subtotal = float_subtotal lookup new (Float 0)"
    by auto
  have len: "length new = length chosen"
    using n(2) by (metis length_map)
  have "length new \<in> {1..4}" using ch(2) kr len by auto
  with n ch len show ?thesis
    by (intro exI [of _ "\<lparr>o_order_id = next_order_id st,
                    o_customer_id = c_customer_id c,
                    o_order_date = strftime_ymd order_date,
                    o_total_amount = format_2f subtotal\<rparr>"] exI [of _ new] exI [of _ chosen])
       (simp add: st')
qed

lemma customer_orders_loop_inv:
  assumes step: "\<And>st st'. P st \<Longrightarrow> one_order c ps lookup st = Inr st' \<Longrightarrow> P st'"
  shows "P st \<Longrightarrow> customer_orders_loop n c ps lookup st = Inr st' \<Longrightarrow> P st'"
proof (induction n arbitrary: st)
  case 0
  then show ?case by simp
next
  case (Suc n)
  from Suc.prems(2) obtain st1 where
    a: "one_order c ps lookup st = Inr st1" and
    b: "customer_orders_loop n c ps lookup st1 = Inr st'"
    by (auto split: sum.splits)
  from step [OF Suc.prems(1) a] have "P st1" .
  from Suc.IH [OF this b] show ?case .
qed

lemma orders_loop_inv:
  assumes step: "\<And>c st st'. c \<in> set cs \<Longrightarrow> P st \<Longrightarrow> one_order c ps lookup st = Inr st' \<Longrightarrow> P st'"
    and rng: "\<And>st g. P st \<Longrightarrow> P (st\<lparr>gen_rng := g\<rparr>)"
  shows "P st \<Longrightarrow> orders_loop cs ps lookup st = Inr st' \<Longrightarrow> P st'"
  using step
proof (induction cs arbitrary: st)
  case Nil
  then show ?case by simp
next
  case (Cons c cs)
  from Cons.prems(2) obtain k g1 st1 where
    a: "customer_orders_loop (nat k) c ps lookup (st\<lparr>gen_rng := g1\<rparr>) = Inr st1" and
    b: "orders_loop cs ps lookup st1 = Inr st'"
    by (auto split: sum.splits prod.splits)
  have "P (st\<lparr>gen_rng := g1\<rparr>)" using Cons.prems(1) by (rule rng)
  then have "P st1"
    using a Cons.prems(3) [of c] by (auto intro: customer_orders_loop_inv [where P = P])
  then show ?case
    using b Cons.prems(3) by (auto intro: Cons.IH)
qed

lemma orders_inv_step:
  assumes c: "c \<in> set cs" and inv: "orders_inv cs ps lookup st"
    and one: "one_order c ps lookup st = Inr st'"
  shows "orders_inv cs ps lookup st'"
proof -
  from one_order_Inr [OF one] obtain ord new chosen where
    p1: "orders st' = orders st @ [ord]" and
    p2: "order_items st' = order_items st @ new" and
    p3: "next_order_id st' = next_order_id st + 1" and
    p4: "next_order_item_id st' = next_order_item_id st + int (length new)" and
    p5: "o_order_id ord = next_order_id st" and
    p6: "o_customer_id ord = c_customer_id c" and
    p7: "o_total_amount ord = format_2f (float_subtotal lookup new (Float 0))" and
    p8: "map oi_order_item_id new =
           [next_order_item_id st..next_order_item_id st + int (length new) - 1]" and
    p9: "\<forall>i\<in>set new. oi_order_id i = next_order_id st \<and> 1 \<le> oi_quantity i \<and>
          oi_quantity i \<le> 3 \<and> lookup (oi_product_id i) \<noteq> None" and
    p10: "map oi_product_id new = map p_product_id chosen" and
    p11: "mset chosen \<subseteq># mset ps" and
    p12: "length new \<in> {1..4}"
    by blast
  from inv have
    i1: "map o_order_id (orders st) = [1..next_order_id st - 1]" and
    i2: "map oi_order_item_id (order_items st) = [1..next_order_item_id st - 1]" and
    i3: "1 \<le> next_order_id st" and
    i4: "1 \<le> next_order_item_id st" and
    i5: "sorted (map oi_order_id (order_items st))" and
    i6: "\<forall>i\<in>set (order_items st).
        1 \<le> oi_order_id i \<and> oi_order_id i < next_order_id st \<and>
        1 \<le> oi_quantity i \<and> oi_quantity i \<le> 3 \<and> lookup (oi_product_id i) \<noteq> None" and
    i7: "\<forall>x\<in>set (orders st).
        o_customer_id x \<in> c_customer_id ` set cs \<and>
        length (order_lines (o_order_id x) (order_items st)) \<in> {1..4} \<and>
        (\<exists>chosen. map oi_product_id (order_lines (o_order_id x) (order_items st)) =
                     map p_product_id chosen \<and> mset chosen \<subseteq># mset ps) \<and>
        o_total_amount x =
          format_2f (float_subtotal lookup (order_lines (o_order_id x) (order_items st)) (Float 0))"
    unfolding orders_inv_def by blast+
  have old_id: "o_order_id x < next_order_id st" if "x \<in> set (orders st)" for x
  proof -
    from that have "o_order_id x \<in> set (map o_order_id (orders st))" by simp
    then show ?thesis unfolding i1 by simp
  qed
  have new_none: "order_lines k new = []" if "k \<noteq> next_order_id st" for k
    using p9 that by (auto simp: order_lines_def filter_empty_conv)
  have new_all: "order_lines (next_order_id st) new = new"
    using p9 by (auto simp: order_lines_def)
  have old_none: "order_lines (next_order_id st) (order_items st) = []"
    using i6 by (fastforce simp: order_lines_def filter_empty_conv)
  have old_lines: "order_lines (o_order_id x) (order_items st') =
      order_lines (o_order_id x) (order_items st)" if "x \<in> set (orders st)" for x
  proof -
    from old_id [OF that] have "o_order_id x \<noteq> next_order_id st" by simp
    from new_none [OF this] show ?thesis
      by (simp add: p2 order_lines_def)
  qed
  have new_lines: "order_lines (o_order_id ord) (order_items st') = new"
    using old_none new_all by (simp add: p2 p5 order_lines_def)
  have c1: "map o_order_id (orders st') = [1..next_order_id st' - 1]"
  proof -
    have "[1..next_order_id st] = [1..next_order_id st - 1] @ [next_order_id st]"
      using i3 by (simp add: upto_rec2)
    then show ?thesis by (simp add: p1 p3 p5 i1)
  qed
  have c2: "map oi_order_item_id (order_items st') = [1..next_order_item_id st' - 1]"
  proof -
    have "1 \<le> int (length new)" using p12 by simp
    then have "[1..next_order_item_id st + int (length new) - 1] =
        [1..next_order_item_id st - 1] @
        [next_order_item_id st..next_order_item_id st + int (length new) - 1]"
      using i4 by (intro upto_split1) auto
    then show ?thesis by (simp add: p2 p4 p8 i2)
  qed
  have c5: "sorted (map oi_order_id (order_items st'))"
  proof -
    have "sorted (map oi_order_id new)"
    proof -
      have "map oi_order_id new = replicate (length new) (next_order_id st)"
        using p9 by (simp add: map_replicate_const [symmetric] cong: map_cong)
      then show ?thesis by (simp add: sorted_replicate)
    qed
    moreover have "\<forall>x\<in>set (order_items st). \<forall>y\<in>set new. oi_order_id x \<le> oi_order_id y"
      using i6 p9 by fastforce
    ultimately show ?thesis using i5 by (simp add: p2 sorted_append)
  qed
  have c6: "\<forall>i\<in>set (order_items st').
        1 \<le> oi_order_id i \<and> oi_order_id i < next_order_id st' \<and>
        1 \<le> oi_quantity i \<and> oi_quantity i \<le> 3 \<and> lookup (oi_product_id i) \<noteq> None"
    using i6 p9 i3 by (fastforce simp: p2 p3)
  have c7: "\<forall>x\<in>set (orders st').
        o_customer_id x \<in> c_customer_id ` set cs \<and>
        length (order_lines (o_order_id x) (order_items st')) \<in> {1..4} \<and>
        (\<exists>chosen. map oi_product_id (order_lines (o_order_id x) (order_items st')) =
                     map p_product_id chosen \<and> mset chosen \<subseteq># mset ps) \<and>
        o_total_amount x =
          format_2f (float_subtotal lookup (order_lines (o_order_id x) (order_items st')) (Float 0))"
  proof
    fix x assume "x \<in> set (orders st')"
    then consider "x \<in> set (orders st)" | "x = ord" by (auto simp: p1)
    then show "o_customer_id x \<in> c_customer_id ` set cs \<and>
        length (order_lines (o_order_id x) (order_items st')) \<in> {1..4} \<and>
        (\<exists>chosen. map oi_product_id (order_lines (o_order_id x) (order_items st')) =
                     map p_product_id chosen \<and> mset chosen \<subseteq># mset ps) \<and>
        o_total_amount x =
          format_2f (float_subtotal lookup (order_lines (o_order_id x) (order_items st')) (Float 0))"
    proof cases
      case 1
      with i7 show ?thesis by (simp only: old_lines [OF 1])
    next
      case 2
      have "\<exists>chosen. map oi_product_id new = map p_product_id chosen \<and> mset chosen \<subseteq># mset ps"
        using p10 p11 by blast
      then show ?thesis
        unfolding 2 new_lines using c p6 p7 p12 by simp
    qed
  qed
  show ?thesis
    unfolding orders_inv_def using c1 c2 c5 c6 c7 i3 i4 by (simp add: p3 p4)
qed

lemma orders_inv_rng: "orders_inv cs ps lookup st \<Longrightarrow> orders_inv cs ps lookup (st\<lparr>gen_rng := g\<rparr>)"
  by (simp add: orders_inv_def)

lemma orders_inv_init:
  "orders_inv cs ps lookup
     \<lparr>orders = [], order_items = [], next_order_id = 1, next_order_item_id = 1,
      gen_rng = g, gen_clock = c\<rparr>"
  by (simp add: orders_inv_def)

lemma generate_orders_inv:
  assumes "generate_orders cs ps g c = Inr st"
  shows "\<exists>lookup. product_lookup_loop ps Map.empty = Inr lookup \<and> orders_inv cs ps lookup st"
proof -
  from assms obtain lookup where
    l: "product_lookup_loop ps Map.empty = Inr lookup" and
    r: "orders_loop cs ps lookup
            \<lparr>orders = [], order_items = [], next_order_id = 1, next_order_item_id = 1,
             gen_rng = g, gen_clock = c\<rparr> = Inr st"
    by (auto simp: generate_orders_def split: sum.splits)
  have "orders_inv cs ps lookup st"
    by (rule orders_loop_inv [where P = "orders_inv cs ps lookup", OF _ _ orders_inv_init r])
       (auto intro: orders_inv_step orders_inv_rng)
  with l show ?thesis by blast
qed

lemma review_attempt_Inr:
  assumes "review_attempt cs ps (rs, rid, pairs, g) = Inr (rs', rid', pairs', g')"
  shows "(rs' = rs \<and> rid' = rid \<and> pairs' = pairs) \<or>
     (\<exists>r. rs' = rs @ [r] \<and> rid' = rid + 1 \<and> pairs' = insert (review_key r) pairs \<and>
        review_key r \<notin> pairs \<and> r_review_id r = rid \<and>
        r_customer_id r \<in> c_customer_id ` set cs \<and> r_product_id r \<in> p_product_id ` set ps \<and>
        1 \<le> r_rating r \<and> r_rating r \<le> 5 \<and> r_comment r \<in> set COMMENTS)"
proof -
  from assms obtain customer g1 product g2 where
    a: "choice cs g = Inr (customer, g1)" and b: "choice ps g1 = Inr (product, g2)"
    by (auto simp: review_attempt_def split: sum.splits)
  note m = choice_Inr_mem [OF a] choice_Inr_mem [OF b]
  show ?thesis
  proof (cases "(c_customer_id customer, p_product_id product) \<in> pairs")
    case True
    with assms a b show ?thesis by (simp add: review_attempt_def)
  next
    case False
    with assms a b obtain rating g3 comment where
      r: "randint 1 5 g2 = Inr (rating, g3)" and cm: "choice COMMENTS g3 = Inr (comment, g')" and
      e: "rs' = rs @ [\<lparr>r_review_id = rid, r_customer_id = c_customer_id customer,
                   r_product_id = p_product_id product, r_rating = rating,
                   r_comment = comment\<rparr>]"
         "rid' = rid + 1"
         "pairs' = insert (c_customer_id customer, p_product_id product) pairs"
      by (auto simp: review_attempt_def split: sum.splits)
    from randint_range [OF r] choice_Inr_mem [OF cm] m False e show ?thesis
      by (auto simp: review_key_def)
  qed
qed

lemma reviews_inv_step:
  assumes "reviews_inv cs ps st" and "review_attempt cs ps st = Inr st'"
  shows "reviews_inv cs ps st' \<and> length (fst st') \<le> Suc (length (fst st))"
proof -
  obtain rs rid pairs g where st: "st = (rs, rid, pairs, g)" by (cases st)
  obtain rs' rid' pairs' g' where st': "st' = (rs', rid', pairs', g')" by (cases st')
  from review_attempt_Inr [OF assms(2) [unfolded st st']]
  show ?thesis
  proof
    assume "rs' = rs \<and> rid' = rid \<and> pairs' = pairs"
    with assms(1) show ?thesis by (simp add: st st' reviews_inv_def)
  next
    assume "\<exists>r. rs' = rs @ [r] \<and> rid' = rid + 1 \<and> pairs' = insert (review_key r) pairs \<and>
        review_key r \<notin> pairs \<and> r_review_id r = rid \<and>
        r_customer_id r \<in> c_customer_id ` set cs \<and> r_product_id r \<in> p_product_id ` set ps \<and>
        1 \<le> r_rating r \<and> r_rating r \<le> 5 \<and> r_comment r \<in> set COMMENTS"
    then obtain r where r: "rs' = rs @ [r]" "rid' = rid + 1" "pairs' = insert (review_key r) pairs"
        "review_key r \<notin> pairs" "r_review_id r = rid"
        "r_customer_id r \<in> c_customer_id ` set cs" "r_product_id r \<in> p_product_id ` set ps"
        "1 \<le> r_rating r" "r_rating r \<le> 5" "r_comment r \<in> set COMMENTS"
      by blast
    from assms(1) have i: "pairs = set (map review_key rs)" "distinct (map review_key rs)"
      "map r_review_id rs = [1..rid - 1]" "1 \<le> rid"
      "\<forall>r\<in>set rs.
           r_customer_id r \<in> c_customer_id ` set cs \<and> r_product_id r \<in> p_product_id ` set ps \<and>
           1 \<le> r_rating r \<and> r_rating r \<le> 5 \<and> r_comment r \<in> set COMMENTS"
      by (simp_all add: st reviews_inv_def)
    have "[1..rid] = [1..rid - 1] @ [rid]" using i(4) by (simp add: upto_rec2)
    with r i show ?thesis
      by (auto simp: st st' reviews_inv_def)
  qed
qed

lemma reviews_loop_inv:
  "reviews_inv cs ps st \<Longrightarrow> reviews_loop n cs ps st = Inr st' \<Longrightarrow>
     reviews_inv cs ps st' \<and> length (fst st') \<le> length (fst st) + n"
proof (induction n arbitrary: st)
  case 0
  then show ?case by simp
next
  case (Suc n)
  from Suc.prems(2) obtain st1 where
    a: "review_attempt cs ps st = Inr st1" and b: "reviews_loop n cs ps st1 = Inr st'"
    by (auto split: sum.splits)
  from reviews_inv_step [OF Suc.prems(1) a] Suc.IH [OF _ b] show ?case by auto
qed

lemma generate_reviews_inv:
  assumes "generate_reviews cs ps g = Inr (rs, g')"
  shows "\<exists>rid pairs. reviews_inv cs ps (rs, rid, pairs, g') \<and> length rs \<le> 28"
proof -
  from assms obtain rid pairs where
    l: "reviews_loop 28 cs ps ([], 1, {}, g) = Inr (rs, rid, pairs, g')"
    by (auto simp: generate_reviews_def split: sum.splits)
  have "reviews_inv cs ps ([], 1, {}, g)" by (simp add: reviews_inv_def)
  from reviews_loop_inv [OF this l] show ?thesis by auto
qed

text \<open>
  Claim C5. Whatever the customers, the products and the random draws, the reviews that
  \<open>generate_reviews\<close> returns carry pairwise different (customer id, product id)
  pairs, and there are at most 28 of them.
\<close>
theorem review_pairs_distinct:
  "generate_reviews cs ps g = Inr (rs, g') \<Longrightarrow>
     distinct (map (\<lambda>r. (r_customer_id r, r_product_id r)) rs) \<and> length rs \<le> 28"
proof -
  assume "generate_reviews cs ps g = Inr (rs, g')"
  from generate_reviews_inv [OF this] obtain rid pairs where
    "reviews_inv cs ps (rs, rid, pairs, g')" "length rs \<le> 28" by blast
  then show ?thesis
    by (simp add: reviews_inv_def review_key_def [abs_def])
qed

theorem review_pairs_distinct_witness:
  "\<exists>rs g'. generate_reviews
       [\<lparr>c_customer_id = 1, c_name = ''Alex Smith'', c_email = ''alex.smith@example.com'',
         c_city = ''Boston''\<rparr>]
       [\<lparr>p_product_id = 1, p_name = ''Yoga Mat'', p_category = ''Fitness'', p_price = ''32.00''\<rparr>,
        \<lparr>p_product_id = 2, p_name = ''Foam Roller'', p_category = ''Fitness'', p_price = ''28.75''\<rparr>]
       (\<lambda>i. i, 0) = Inr (rs, g') \<and>
     length rs = 1 \<and>
     distinct (map (\<lambda>r. (r_customer_id r, r_product_id r)) rs) \<and> length rs \<le> 28"
proof -
  have "case generate_reviews
       [\<lparr>c_customer_id = 1, c_name = ''Alex Smith'', c_email = ''alex.smith@example.com'',
         c_city = ''Boston''\<rparr>]
       [\<lparr>p_product_id = 1, p_name = ''Yoga Mat'', p_category = ''Fitness'', p_price = ''32.00''\<rparr>,
        \<lparr>p_product_id = 2, p_name = ''Foam Roller'', p_category = ''Fitness'', p_price = ''28.75''\<rparr>]
       (\<lambda>i. i, 0) of
        Inl e \<Rightarrow> False | Inr (rs, g') \<Rightarrow> length rs = 1"
    by code_simp
  then obtain rs g' where e: "generate_reviews
       [\<lparr>c_customer_id = 1, c_name = ''Alex Smith'', c_email = ''alex.smith@example.com'',
         c_city = ''Boston''\<rparr>]
       [\<lparr>p_product_id = 1, p_name = ''Yoga Mat'', p_category = ''Fitness'', p_price = ''32.00''\<rparr>,
        \<lparr>p_product_id = 2, p_name = ''Foam Roller'', p_category = ''Fitness'', p_price = ''28.75''\<rparr>]
       (\<lambda>i. i, 0) = Inr (rs, g')" and l: "length rs = 1"
    by (auto split: sum.splits)
  from review_pairs_distinct [OF e] e l show ?thesis by blast
qed

lemma distinct_of_submset:
  "distinct ys \<Longrightarrow> mset xs \<subseteq># mset ys \<Longrightarrow> distinct xs"
proof (induction xs arbitrary: ys)
  case Nil
  show ?case by simp
next
  case (Cons a xs)
  have sub: "mset xs \<subseteq># mset (remove1 a ys)"
    using Cons.prems(2) by (simp add: insert_subset_eq_iff)
  have d: "distinct (remove1 a ys)" using Cons.prems(1) by simp
  have "set xs \<subseteq> set (remove1 a ys)"
    using sub by (metis set_mset_mono set_mset_mset)
  then have "a \<notin> set xs" using Cons.prems(1) by (auto simp: set_remove1_eq)
  with Cons.IH [OF d sub] show ?case by simp
qed

lemma distinct_map_submset:
  assumes "mset xs \<subseteq># mset ys" and "distinct (map f ys)"
  shows "distinct (map f xs)"
proof -
  have "mset (map f xs) \<subseteq># mset (map f ys)"
    using assms(1) by (simp add: image_mset_subseteq_mono)
  with assms(2) show ?thesis by (rule distinct_of_submset)
qed

lemma orders_inv_fk:
  assumes "orders_inv cs ps lookup st"
  shows "(\<forall>ord\<in>set (orders st). o_customer_id ord \<in> c_customer_id ` set cs) \<and>
     (\<forall>i\<in>set (order_items st).
        oi_order_id i \<in> o_order_id ` set (orders st) \<and>
        oi_product_id i \<in> p_product_id ` set ps)"
proof (intro conjI ballI)
  fix ord assume "ord \<in> set (orders st)"
  with assms show "o_customer_id ord \<in> c_customer_id ` set cs"
    by (simp add: orders_inv_def)
next
  fix i assume i: "i \<in> set (order_items st)"
  from assms i have r: "1 \<le> oi_order_id i" "oi_order_id i < next_order_id st"
    by (simp_all add: orders_inv_def)
  from assms have ids: "map o_order_id (orders st) = [1..next_order_id st - 1]"
    by (simp add: orders_inv_def)
  from r have "oi_order_id i \<in> set [1..next_order_id st - 1]" by simp
  then have "oi_order_id i \<in> set (map o_order_id (orders st))" by (simp only: ids)
  then show m: "oi_order_id i \<in> o_order_id ` set (orders st)" by simp
  then obtain ord where ord: "ord \<in> set (orders st)" "o_order_id ord = oi_order_id i" by auto
  with assms obtain chosen where
    ch: "map oi_product_id (order_lines (o_order_id ord) (order_items st)) = map p_product_id chosen"
        "mset chosen \<subseteq># mset ps"
    unfolding orders_inv_def by blast
  have "i \<in> set (order_lines (o_order_id ord) (order_items st))"
    using i ord(2) by (simp add: order_lines_def)
  then have "oi_product_id i \<in> set (map oi_product_id (order_lines (o_order_id ord) (order_items st)))"
    by simp
  then have "oi_product_id i \<in> p_product_id ` set chosen" by (simp add: ch(1))
  moreover have "set chosen \<subseteq> set ps" using ch(2) by (metis set_mset_mono set_mset_mset)
  ultimately show "oi_product_id i \<in> p_product_id ` set ps" by auto
qed

text \<open>
  Claim C4. In the tables of one generation run every foreign key resolves: the customer
  of each order is a generated customer, the order of each order item is a generated
  order and its product a generated product, and the customer and the product of each
  review are generated ones.
\<close>
theorem foreign_keys_valid:
  assumes "generate_all n g c = Inr d"
  shows "(\<forall>ord\<in>set (ds_orders d). o_customer_id ord \<in> c_customer_id ` set (ds_customers d)) \<and>
     (\<forall>i\<in>set (ds_order_items d).
        oi_order_id i \<in> o_order_id ` set (ds_orders d) \<and>
        oi_product_id i \<in> p_product_id ` set (ds_products d)) \<and>
     (\<forall>r\<in>set (ds_reviews d).
        r_customer_id r \<in> c_customer_id ` set (ds_customers d) \<and>
        r_product_id r \<in> p_product_id ` set (ds_products d))"
proof -
  from assms obtain cs g1 st rs g3 where
    a: "generate_customers n g = Inr (cs, g1)" and
    b: "generate_orders cs generate_products g1 c = Inr st" and
    r: "generate_reviews cs generate_products (gen_rng st) = Inr (rs, g3)" and
    d: "d = \<lparr>ds_customers = cs, ds_products = generate_products,
               ds_orders = orders st, ds_order_items = order_items st,
               ds_reviews = rs\<rparr>"
    by (auto simp: generate_all_def split: sum.splits)
  from generate_orders_inv [OF b] obtain lookup where
    "orders_inv cs generate_products lookup st" by blast
  note o = orders_inv_fk [OF this]
  from generate_reviews_inv [OF r] obtain rid pairs where
    "reviews_inv cs generate_products (rs, rid, pairs, g3)" by blast
  then have "\<forall>r\<in>set rs. r_customer_id r \<in> c_customer_id ` set cs \<and>
      r_product_id r \<in> p_product_id ` set generate_products"
    by (simp add: reviews_inv_def)
  with o show ?thesis by (simp add: d)
qed

lemma generate_orders_products_distinct:
  assumes "generate_orders cs generate_products g c = Inr st" and "ord \<in> set (orders st)"
  shows "distinct (map oi_product_id (order_lines (o_order_id ord) (order_items st)))"
proof -
  from generate_orders_inv [OF assms(1)] obtain lookup where
    "orders_inv cs generate_products lookup st" by blast
  with assms(2) obtain chosen where
    ch: "map oi_product_id (order_lines (o_order_id ord) (order_items st)) = map p_product_id chosen"
        "mset chosen \<subseteq># mset generate_products"
    unfolding orders_inv_def by blast
  have "distinct (map p_product_id generate_products)"
    by (simp add: generate_products_ids)
  from distinct_map_submset [OF ch(2) this] show ?thesis by (simp add: ch(1))
qed

lemma generate_products_explicit:
  "generate_products =
     [\<lparr>p_product_id = 1, p_name = ''Wireless Earbuds'', p_category = ''Electronics'', p_price = ''79.99''\<rparr>,
      \<lparr>p_product_id = 2, p_name = ''Smartphone Case'', p_category = ''Electronics'', p_price = ''19.99''\<rparr>,
      \<lparr>p_product_id = 3, p_name = ''Bluetooth Speaker'', p_category = ''Electronics'', p_price = ''49.99''\<rparr>,
      \<lparr>p_product_id = 4, p_name = ''Portable Charger'', p_category = ''Electronics'', p_price = ''39.99''\<rparr>,
      \<lparr>p_product_id = 5, p_name = ''Smartwatch'', p_category = ''Electronics'', p_price = ''129.99''\<rparr>,
      \<lparr>p_product_id = 6, p_name = ''Ceramic Mug Set'', p_category = ''Home'', p_price = ''24.99''\<rparr>,
      \<lparr>p_product_id = 7, p_name = ''Throw Blanket'', p_category = ''Home'', p_price = ''34.99''\<rparr>,
      \<lparr>p_product_id = 8, p_name = ''LED Desk Lamp'', p_category = ''Home'', p_price = ''45.50''\<rparr>,
      \<lparr>p_product_id = 9, p_name = ''Aromatherapy Diffuser'', p_category = ''Home'', p_price = ''29.99''\<rparr>,
      \<lparr>p_product_id = 10, p_name = ''Indoor Plant Kit'', p_category = ''Home'', p_price = ''27.49''\<rparr>,
      \<lparr>p_product_id = 11, p_name = ''Yoga Mat'', p_category = ''Fitness'', p_price = ''32.00''\<rparr>,
      \<lparr>p_product_id = 12, p_name = ''Resistance Bands'', p_category = ''Fitness'', p_price = ''21.50''\<rparr>,
      \<lparr>p_product_id = 13, p_name = ''Insulated Water Bottle'', p_category = ''Fitness'', p_price = ''25.00''\<rparr>,
      \<lparr>p_product_id = 14, p_name = ''Foam Roller'', p_category = ''Fitness'', p_price = ''28.75''\<rparr>,
      \<lparr>p_product_id = 15, p_name = ''Adjustable Dumbbell'', p_category = ''Fitness'', p_price = ''199.00''\<rparr>,
      \<lparr>p_product_id = 16, p_name = ''Productivity Planner'', p_category = ''Books'', p_price = ''18.95''\<rparr>,
      \<lparr>p_product_id = 17, p_name = ''Design Thinking Guide'', p_category = ''Books'', p_price = ''22.00''\<rparr>,
      \<lparr>p_product_id = 18, p_name = ''Modern Cooking'', p_category = ''Books'', p_price = ''30.00''\<rparr>,
      \<lparr>p_product_id = 19, p_name = ''Mindfulness Workbook'', p_category = ''Books'', p_price = ''16.50''\<rparr>,
      \<lparr>p_product_id = 20, p_name = ''Startup Playbook'', p_category = ''Books'', p_price = ''26.00''\<rparr>]"
  by code_simp

lemma catalog_lookup:
  "\<exists>L. product_lookup_loop generate_products Map.empty = Inr L \<and>
     map L [1, 2, 3, 4, 5, 6, 7, 8, 9, 10, 11, 12, 13, 14, 15, 16, 17, 18, 19, 20] =
     [Some (Float (5628795846771343 / 70368744177664)),
      Some (Float (5626684784446013 / 281474976710656)),
      Some (Float (7035467042882847 / 140737488355328)),
      Some (Float (5628092159329567 / 140737488355328)),
      Some (Float (571702065978409 / 4398046511104)),
      Some (Float (7034059667999293 / 281474976710656)),
      Some (Float (4924404717552927 / 140737488355328)),
      Some (Float (91 / 2)),
      Some (Float (8441434551552573 / 281474976710656)),
      Some (Float (7737747109775933 / 281474976710656)),
      Some (Float (32)),
      Some (Float (43 / 2)),
      Some (Float (25)),
      Some (Float (115 / 4)),
      Some (Float (199)),
      Some (Float (5333950808666931 / 281474976710656)),
      Some (Float (22)),
      Some (Float (30)),
      Some (Float (33 / 2)),
      Some (Float (26))]"
proof -
  have "case product_lookup_loop generate_products Map.empty of Inl e \<Rightarrow> False
    | Inr L \<Rightarrow> map L [1, 2, 3, 4, 5, 6, 7, 8, 9, 10, 11, 12, 13, 14, 15, 16, 17, 18, 19, 20] =
     [Some (Float (5628795846771343 / 70368744177664)),
      Some (Float (5626684784446013 / 281474976710656)),
      Some (Float (7035467042882847 / 140737488355328)),
      Some (Float (5628092159329567 / 140737488355328)),
      Some (Float (571702065978409 / 4398046511104)),
      Some (Float (7034059667999293 / 281474976710656)),
      Some (Float (4924404717552927 / 140737488355328)),
      Some (Float (91 / 2)),
      Some (Float (8441434551552573 / 281474976710656)),
      Some (Float (7737747109775933 / 281474976710656)),
      Some (Float (32)),
      Some (Float (43 / 2)),
      Some (Float (25)),
      Some (Float (115 / 4)),
      Some (Float (199)),
      Some (Float (5333950808666931 / 281474976710656)),
      Some (Float (22)),
      Some (Float (30)),
      Some (Float (33 / 2)),
      Some (Float (26))]"
    by code_simp
  then show ?thesis by (auto split: sum.splits)
qed

lemma example_leaves:
  "lower ''Alex'' = ''alex''"
  "lower ''Smith'' = ''smith''"
  "strftime_ymd (Datetime 1793750400000000) = ''2026-11-04''"
  "fmul (Float (5628795846771343 / 70368744177664)) (float_of_int 1) =
     Float (5628795846771343 / 70368744177664)"
  "fadd (Float 0) (Float (5628795846771343 / 70368744177664)) =
     Float (5628795846771343 / 70368744177664)"
  "format_2f (Float (5628795846771343 / 70368744177664)) = ''79.99''"
  by (code_simp, code_simp, code_simp, code_simp, code_simp, code_simp)

lemmas run_defs =
  generate_all_def generate_customers_def range_upto_def choice_def randbelow_def randint_def
  FIRST_NAMES_def LAST_NAMES_def CITIES_def COMMENTS_def
  generate_orders_def one_order_def daterange_def datetime_now_def timedelta_def
  datetime_min_def sample_def generate_reviews_def review_attempt_def

lemma example_customers:
  "generate_customers 1 example_rng =
     Inr ([\<lparr>c_customer_id = 1, c_name = ''Alex Smith'', c_email = ''alex.smith@example.com'',
            c_city = ''New York''\<rparr>], (fst example_rng, 3))"
  by (simp add: run_defs example_rng_def example_leaves)

lemma sample_pool_numeral:
  "sample_pool pool (numeral k) g =
     (let (j, g1) = randbelow (length pool) g;
          (rest, g2) = sample_pool (butlast (pool[j := last pool])) (pred_numeral k) g1
      in (pool ! j # rest, g2))"
  by (simp add: numeral_eq_Suc)

lemma reviews_loop_numeral:
  "reviews_loop (numeral k) customers products st =
     (case review_attempt customers products st of Inl e \<Rightarrow> Inl e
      | Inr st' \<Rightarrow> reviews_loop (pred_numeral k) customers products st')"
  by (simp add: numeral_eq_Suc)

lemma customer_orders_loop_numeral:
  "customer_orders_loop (numeral k) customer products lookup st =
     (case one_order customer products lookup st of Inl e \<Rightarrow> Inl e
      | Inr st' \<Rightarrow> customer_orders_loop (pred_numeral k) customer products lookup st')"
  by (simp add: numeral_eq_Suc)

lemma example_orders:
  "\<exists>st. generate_orders
       [\<lparr>c_customer_id = 1, c_name = ''Alex Smith'', c_email = ''alex.smith@example.com'',
            c_city = ''New York''\<rparr>] generate_products (fst example_rng, 3) example_clock = Inr st \<and>
     orders st = [\<lparr>o_order_id = 1, o_customer_id = 1, o_order_date = ''2026-11-04'',
                    o_total_amount = ''79.99''\<rparr>] \<and>
     order_items st = [\<lparr>oi_order_item_id = 1, oi_order_id = 1, oi_product_id = 1,
                         oi_quantity = 1\<rparr>] \<and>
     gen_rng st = (fst example_rng, 9)"
proof -
  from catalog_lookup obtain L where
    L: "product_lookup_loop generate_products Map.empty = Inr L" and
    L1: "L 1 = Some (Float (5628795846771343 / 70368744177664))"
    by auto
  have step: "generate_orders cs generate_products g c =
      orders_loop cs generate_products L
        \<lparr>orders = [], order_items = [], next_order_id = 1, next_order_item_id = 1,
         gen_rng = g, gen_clock = c\<rparr>" for cs g c
    by (simp add: generate_orders_def L)
  show ?thesis
    unfolding step
    by (simp add: run_defs example_rng_def example_clock_def example_leaves L1
        generate_products_explicit sample_pool_numeral customer_orders_loop_numeral)
qed

lemma example_reviews:
  "\<exists>g'. generate_reviews
       [\<lparr>c_customer_id = 1, c_name = ''Alex Smith'', c_email = ''alex.smith@example.com'',
            c_city = ''New York''\<rparr>] generate_products (fst example_rng, 9) =
     Inr ([\<lparr>r_review_id = 1, r_customer_id = 1, r_product_id = 1, r_rating = 1,
            r_comment = ''Loved it! Highly recommend.''\<rparr>], g')"
  by (simp add: run_defs example_rng_def generate_products_explicit reviews_loop_numeral)

lemma example_run:
  "generate_all 1 example_rng example_clock =
     Inr \<lparr>ds_customers =
            [\<lparr>c_customer_id = 1, c_name = ''Alex Smith'', c_email = ''alex.smith@example.com'',
              c_city = ''New York''\<rparr>],
          ds_products = generate_products,
          ds_orders =
            [\<lparr>o_order_id = 1, o_customer_id = 1, o_order_date = ''2026-11-04'',
              o_total_amount = ''79.99''\<rparr>],
          ds_order_items =
            [\<lparr>oi_order_item_id = 1, oi_order_id = 1, oi_product_id = 1, oi_quantity = 1\<rparr>],
          ds_reviews =
            [\<lparr>r_review_id = 1, r_customer_id = 1, r_product_id = 1, r_rating = 1,
              r_comment = ''Loved it! Highly recommend.''\<rparr>]\<rparr>"
proof -
  from example_orders obtain st where
    st: "generate_orders
       [\<lparr>c_customer_id = 1, c_name = ''Alex Smith'', c_email = ''alex.smith@example.com'',
            c_city = ''New York''\<rparr>] generate_products (fst example_rng, 3) example_clock = Inr st"
      "orders st = [\<lparr>o_order_id = 1, o_customer_id = 1, o_order_date = ''2026-11-04'',
                    o_total_amount = ''79.99''\<rparr>]"
      "order_items st = [\<lparr>oi_order_item_id = 1, oi_order_id = 1, oi_product_id = 1,
                         oi_quantity = 1\<rparr>]"
      "gen_rng st = (fst example_rng, 9)"
    by blast
  from example_reviews obtain g' where
    r: "generate_reviews
       [\<lparr>c_customer_id = 1, c_name = ''Alex Smith'', c_email = ''alex.smith@example.com'',
            c_city = ''New York''\<rparr>] generate_products (fst example_rng, 9) =
     Inr ([\<lparr>r_review_id = 1, r_customer_id = 1, r_product_id = 1, r_rating = 1,
            r_comment = ''Loved it! Highly recommend.''\<rparr>], g')"
    by blast
  show ?thesis
    by (simp add: generate_all_def example_customers st r)
qed

lemma generate_all_Inr:
  assumes "generate_all n g c = Inr d"
  shows "\<exists>cs g1 st rs g3.
     generate_customers n g = Inr (cs, g1) \<and>
     generate_orders cs generate_products g1 c = Inr st \<and>
     generate_reviews cs generate_products (gen_rng st) = Inr (rs, g3) \<and>
     d = \<lparr>ds_customers = cs, ds_products = generate_products,
          ds_orders = orders st, ds_order_items = order_items st, ds_reviews = rs\<rparr>"
  using assms by (auto simp: generate_all_def split: sum.splits)

text \<open>
  Claim C6. In the tables of one generation run, the order items of one order name
  pairwise different products.
\<close>
theorem order_products_distinct:
  assumes "generate_all n g c = Inr d" and "ord \<in> set (ds_orders d)"
  shows "distinct (map oi_product_id (order_lines (o_order_id ord) (ds_order_items d)))"
proof -
  from generate_all_Inr [OF assms(1)] obtain cs g1 st where
    o: "generate_orders cs generate_products g1 c = Inr st" and
    d: "ds_orders d = orders st" "ds_order_items d = order_items st"
    by auto
  from assms(2) have "ord \<in> set (orders st)" by (simp add: d)
  from generate_orders_products_distinct [OF o this] show ?thesis by (simp add: d)
qed

theorem foreign_keys_valid_witness:
  "\<exists>d. generate_all 1 example_rng example_clock = Inr d \<and>
     ds_orders d \<noteq> [] \<and> ds_order_items d \<noteq> [] \<and> ds_reviews d \<noteq> [] \<and>
     list_all (\<lambda>ord. o_customer_id ord \<in> c_customer_id ` set (ds_customers d)) (ds_orders d) \<and>
     list_all (\<lambda>i. oi_order_id i \<in> o_order_id ` set (ds_orders d) \<and>
        oi_product_id i \<in> p_product_id ` set (ds_products d)) (ds_order_items d) \<and>
     list_all (\<lambda>r. r_customer_id r \<in> c_customer_id ` set (ds_customers d) \<and>
        r_product_id r \<in> p_product_id ` set (ds_products d)) (ds_reviews d)"
proof -
  let ?d = "projr (generate_all 1 example_rng example_clock)"
  have e: "generate_all 1 example_rng example_clock = Inr ?d" by (simp add: example_run)
  have n: "ds_orders ?d \<noteq> []" "ds_order_items ?d \<noteq> []" "ds_reviews ?d \<noteq> []"
    by (simp_all add: example_run)
  from foreign_keys_valid [OF e] e n show ?thesis
    by (auto simp: list_all_iff)
qed

lemma customer_orders_loop_customers:
  "customer_orders_loop k cu ps L st = Inr st' \<Longrightarrow>
     map o_customer_id (orders st') =
       map o_customer_id (orders st) @ replicate k (c_customer_id cu)"
proof (induction k arbitrary: st)
  case 0
  then show ?case by simp
next
  case (Suc k)
  from Suc.prems obtain st1 where
    a: "one_order cu ps L st = Inr st1" and
    b: "customer_orders_loop k cu ps L st1 = Inr st'"
    by (auto split: sum.splits)
  from one_order_Inr [OF a] obtain ord where
    "orders st1 = orders st @ [ord]" "o_customer_id ord = c_customer_id cu"
    by blast
  with Suc.IH [OF b] show ?case by (simp add: replicate_app_Cons_same)
qed

lemma orders_loop_customers:
  "orders_loop cs ps L st = Inr st' \<Longrightarrow>
     \<exists>ks. length ks = length cs \<and>
       map o_customer_id (orders st') = map o_customer_id (orders st) @ customer_runs cs ks"
proof (induction cs arbitrary: st)
  case Nil
  then show ?case by (simp add: customer_runs_def)
next
  case (Cons cu cs)
  from Cons.prems obtain k g1 st1 where
    a: "customer_orders_loop (nat k) cu ps L (st\<lparr>gen_rng := g1\<rparr>) = Inr st1" and
    b: "orders_loop cs ps L st1 = Inr st'"
    by (auto split: sum.splits prod.splits)
  from customer_orders_loop_customers [OF a] have
    c: "map o_customer_id (orders st1) =
          map o_customer_id (orders st) @ replicate (nat k) (c_customer_id cu)"
    by simp
  from Cons.IH [OF b] obtain ks where
    ks: "length ks = length cs"
        "map o_customer_id (orders st') = map o_customer_id (orders st1) @ customer_runs cs ks"
    by blast
  show ?case
    by (rule exI [of _ "nat k # ks"]) (simp add: ks c customer_runs_def)
qed

lemma orders_inv_counters:
  assumes "orders_inv cs ps L st"
  shows "map o_order_id (orders st) = [1..int (length (orders st))] \<and>
     map oi_order_item_id (order_items st) = [1..int (length (order_items st))] \<and>
     sorted (map oi_order_id (order_items st))"
proof -
  from assms have
    i1: "map o_order_id (orders st) = [1..next_order_id st - 1]" and
    i2: "map oi_order_item_id (order_items st) = [1..next_order_item_id st - 1]" and
    i3: "1 \<le> next_order_id st" "1 \<le> next_order_item_id st" and
    i5: "sorted (map oi_order_id (order_items st))"
    by (simp_all add: orders_inv_def)
  have "length (map o_order_id (orders st)) = nat (next_order_id st - 1)"
    unfolding i1 by simp
  then have a: "int (length (orders st)) = next_order_id st - 1" using i3 by simp
  have "length (map oi_order_item_id (order_items st)) = nat (next_order_item_id st - 1)"
    unfolding i2 by simp
  then have b: "int (length (order_items st)) = next_order_item_id st - 1" using i3 by simp
  show ?thesis using i1 i2 i5 by (simp add: a b)
qed

text \<open>
  Claim C8. In the tables of one generation run the order ids, read in the order the
  orders were appended, are the counter values 1, 2, ... without a gap, and so are the
  order item ids; the order items follow the orders (their order ids never decrease);
  and the orders follow the customers: their customer ids are one run per customer, in
  customer order.
\<close>
theorem ids_follow_generation_order:
  assumes "generate_all n g c = Inr d"
  shows "map o_order_id (ds_orders d) = [1..int (length (ds_orders d))] \<and>
     map oi_order_item_id (ds_order_items d) = [1..int (length (ds_order_items d))] \<and>
     sorted (map oi_order_id (ds_order_items d)) \<and>
     (\<exists>ks. length ks = length (ds_customers d) \<and>
        map o_customer_id (ds_orders d) = customer_runs (ds_customers d) ks)"
proof -
  from generate_all_Inr [OF assms] obtain cs g1 st where
    o: "generate_orders cs generate_products g1 c = Inr st" and
    d: "ds_orders d = orders st" "ds_order_items d = order_items st" "ds_customers d = cs"
    by auto
  from generate_orders_inv [OF o] obtain L where
    L: "product_lookup_loop generate_products Map.empty = Inr L" and
    inv: "orders_inv cs generate_products L st"
    by blast
  from o L have "orders_loop cs generate_products L
            \<lparr>orders = [], order_items = [], next_order_id = 1, next_order_item_id = 1,
             gen_rng = g1, gen_clock = c\<rparr> = Inr st"
    by (simp add: generate_orders_def)
  from orders_loop_customers [OF this] obtain ks where
    "length ks = length cs" "map o_customer_id (orders st) = customer_runs cs ks"
    by auto
  with orders_inv_counters [OF inv] show ?thesis by (auto simp: d)
qed

lemma items_loop_defined:
  "\<forall>p\<in>set chosen. L (p_product_id p) \<noteq> None \<Longrightarrow>
     \<exists>r. items_loop chosen L oid items s oiid g = Inr r"
proof (induction chosen arbitrary: items s oiid g)
  case Nil
  show ?case by simp
next
  case (Cons p chosen)
  from randint_Inr [of 1 3 g] obtain q where
    q: "randint 1 3 g = Inr (q, (fst g, Suc (snd g)))" by auto
  from Cons.prems obtain price where l: "L (p_product_id p) = Some price" by auto
  from Cons.prems have "\<forall>p\<in>set chosen. L (p_product_id p) \<noteq> None" by simp
  from Cons.IH [OF this] show ?case by (simp add: q l)
qed

lemma product_lookup_loop_dom:
  "product_lookup_loop ps m = Inr L \<Longrightarrow>
     (\<forall>p\<in>set ps. L (p_product_id p) \<noteq> None) \<and> (\<forall>k. m k \<noteq> None \<longrightarrow> L k \<noteq> None)"
proof (induction ps arbitrary: m)
  case Nil
  then show ?case by simp
next
  case (Cons p ps)
  from Cons.prems obtain f where
    r: "product_lookup_loop ps (m(p_product_id p \<mapsto> f)) = Inr L"
    by (auto split: sum.splits)
  from Cons.IH [OF r] show ?case by auto
qed

lemma daterange_error: "daterange days c g = Inl e \<Longrightarrow> 0 \<le> days \<Longrightarrow> e = OverflowError"
proof -
  assume a: "daterange days c g = Inl e" and d: "0 \<le> days"
  obtain us where b: "fst c (snd c) = Datetime us" by (cases "fst c (snd c)")
  from randint_Inr [OF d, of g] obtain k where
    k: "randint 0 days g = Inr (k, (fst g, Suc (snd g)))" by auto
  from randint_Inr [of 0 23 "(fst g, Suc (snd g))"] obtain h where
    h: "randint 0 23 (fst g, Suc (snd g)) = Inr (h, (fst g, Suc (Suc (snd g))))" by auto
  from a show ?thesis
    by (simp add: daterange_def datetime_now_def b k h datetime_sub.simps split: if_splits)
qed

lemma one_order_error:
  assumes "4 \<le> length ps" and "\<forall>p\<in>set ps. L (p_product_id p) \<noteq> None"
    and "one_order cu ps L st = Inl e"
  shows "e = OverflowError"
proof (cases "daterange 120 (gen_clock st) (gen_rng st)")
  case (Inl e')
  with assms(3) have "e' = e" by (simp add: one_order_def)
  with daterange_error [OF Inl] show ?thesis by simp
next
  case (Inr r)
  obtain dt c1 g1 where r: "r = (dt, c1, g1)" by (cases r)
  from randint_Inr [of 1 4 g1] obtain k where
    k: "randint 1 4 g1 = Inr (k, (fst g1, Suc (snd g1)))" "1 \<le> k" "k \<le> 4" by auto
  have s: "sample ps k (fst g1, Suc (snd g1)) =
      Inr (sample_pool ps (nat k) (fst g1, Suc (snd g1)))"
    using k assms(1) by (intro sample_defined) auto
  obtain chosen g3 where c: "sample_pool ps (nat k) (fst g1, Suc (snd g1)) = (chosen, g3)"
    by (cases "sample_pool ps (nat k) (fst g1, Suc (snd g1))")
  from sample_Inr [OF s [unfolded c]] have "set chosen \<subseteq> set ps"
    by (metis set_mset_mono set_mset_mset)
  with assms(2) have "\<forall>p\<in>set chosen. L (p_product_id p) \<noteq> None" by auto
  from items_loop_defined [OF this] obtain r' where
    "items_loop chosen L (next_order_id st) [] (Float 0) (next_order_item_id st) g3 = Inr r'"
    by blast
  with assms(3) Inr r k s c show ?thesis
    by (simp add: one_order_def split: prod.splits)
qed

lemma customer_orders_loop_error:
  assumes "4 \<le> length ps" and "\<forall>p\<in>set ps. L (p_product_id p) \<noteq> None"
  shows "customer_orders_loop k cu ps L st = Inl e \<Longrightarrow> e = OverflowError"
proof (induction k arbitrary: st)
  case 0
  then show ?case by simp
next
  case (Suc k)
  then show ?case
    using one_order_error [OF assms] by (auto split: sum.splits)
qed

lemma orders_loop_error:
  assumes "4 \<le> length ps" and "\<forall>p\<in>set ps. L (p_product_id p) \<noteq> None"
  shows "orders_loop cs ps L st = Inl e \<Longrightarrow> e = OverflowError"
proof (induction cs arbitrary: st)
  case Nil
  then show ?case by simp
next
  case (Cons cu cs)
  from randint_Inr [of 0 3 "gen_rng st"] obtain k where
    k: "randint 0 3 (gen_rng st) = Inr (k, (fst (gen_rng st), Suc (snd (gen_rng st))))" by auto
  from Cons.prems show ?case
    using customer_orders_loop_error [OF assms] Cons.IH
    by (auto simp: k split: sum.splits)
qed

lemma length_generate_products: "length generate_products = 20"
  using arg_cong [OF generate_products_ids, of length] by simp

lemma generate_orders_error:
  assumes "generate_orders cs generate_products g c = Inl e"
  shows "e = OverflowError"
proof -
  from catalog_lookup obtain L where
    L: "product_lookup_loop generate_products Map.empty = Inr L" by blast
  from product_lookup_loop_dom [OF L] have
    d: "\<forall>p\<in>set generate_products. L (p_product_id p) \<noteq> None" by simp
  have "4 \<le> length generate_products" by (simp add: length_generate_products)
  from orders_loop_error [OF this d] assms show ?thesis
    by (simp add: generate_orders_def L)
qed

text \<open>
  Claim C9. The catalog has 20 products; the item count drawn for an order lies between
  1 and 4, so it never exceeds the catalog, and sampling that many products from the
  catalog returns that many products and does not fail; order generation over the
  catalog never ends in the \<open>ValueError\<close> of a failed sampling.
\<close>
theorem sampling_never_fails:
  "length generate_products = 20 \<and>
   (\<exists>k g'. randint 1 4 g = Inr (k, g') \<and> 1 \<le> k \<and> k \<le> 4 \<and>
      k \<le> int (length generate_products) \<and>
      (\<exists>chosen g''. sample generate_products k g' = Inr (chosen, g'') \<and> int (length chosen) = k)) \<and>
   generate_orders cs generate_products g c \<noteq> Inl ValueError"
proof -
  from randint_Inr [of 1 4 g] obtain k where
    k: "randint 1 4 g = Inr (k, (fst g, Suc (snd g)))" "1 \<le> k" "k \<le> 4" by auto
  have s: "sample generate_products k (fst g, Suc (snd g)) =
      Inr (sample_pool generate_products (nat k) (fst g, Suc (snd g)))"
    using k by (intro sample_defined) (auto simp: length_generate_products)
  obtain chosen g'' where
    c: "sample_pool generate_products (nat k) (fst g, Suc (snd g)) = (chosen, g'')"
    by (cases "sample_pool generate_products (nat k) (fst g, Suc (snd g))")
  from sample_Inr [OF s [unfolded c]] have "int (length chosen) = k" by simp
  with k s c have
    "\<exists>k g'. randint 1 4 g = Inr (k, g') \<and> 1 \<le> k \<and> k \<le> 4 \<and>
      k \<le> int (length generate_products) \<and>
      (\<exists>chosen g''. sample generate_products k g' = Inr (chosen, g'') \<and> int (length chosen) = k)"
    by (auto simp: length_generate_products)
  moreover have "generate_orders cs generate_products g c \<noteq> Inl ValueError"
    using generate_orders_error [of cs g c ValueError] by auto
  ultimately show ?thesis by (simp add: length_generate_products)
qed

lemma three_customer_leaves:
  "fmul (Float (5626684784446013 / 281474976710656)) (float_of_int 1) =
     Float (5626684784446013 / 281474976710656)"
  "fmul (Float 22) (float_of_int 1) = Float 22"
  "fmul (Float 26) (float_of_int 1) = Float 26"
  "fmul (Float 30) (float_of_int 1) = Float 30"
  "fmul (Float 32) (float_of_int 2) = Float 64"
  "fmul (Float (5628795846771343 / 70368744177664)) (float_of_int 3) =
     Float (4221596885078507 / 17592186044416)"
  "fadd (Float 0) (Float 22) = Float 22"
  "fadd (Float 0) (Float 64) = Float 64"
  "fadd (Float 0) (Float (4221596885078507 / 17592186044416)) =
     Float (4221596885078507 / 17592186044416)"
  "fadd (Float 22) (Float 30) = Float 52"
  "fadd (Float 52) (Float 26) = Float 78"
  "fadd (Float 64) (Float (5626684784446013 / 281474976710656)) =
     Float (5910270823481999 / 70368744177664)"
  "format_2f (Float 78) = ''78.00''"
  "format_2f (Float (5910270823481999 / 70368744177664)) = ''83.99''"
  "format_2f (Float (4221596885078507 / 17592186044416)) = ''239.97''"
  "strftime_ymd (Datetime 1793577600000000) = ''2026-11-02''"
  "strftime_ymd (Datetime 1793664000000000) = ''2026-11-03''"
  "lower ''Johnson'' = ''johnson''"
  "lower ''Jordan'' = ''jordan''"
  "lower ''Taylor'' = ''taylor''"
  "lower ''Williams'' = ''williams''"
  by (code_simp, code_simp, code_simp, code_simp, code_simp, code_simp, code_simp,
      code_simp, code_simp, code_simp, code_simp, code_simp, code_simp, code_simp,
      code_simp, code_simp, code_simp, code_simp, code_simp, code_simp, code_simp)

lemma three_customers:
  "generate_customers 3 three_customer_rng =
     Inr ([\<lparr>c_customer_id = 1, c_name = ''Alex Smith'', c_email = ''alex.smith@example.com'',
            c_city = ''New York''\<rparr>,
           \<lparr>c_customer_id = 2, c_name = ''Jordan Johnson'',
            c_email = ''jordan.johnson@example.com'', c_city = ''San Francisco''\<rparr>,
           \<lparr>c_customer_id = 3, c_name = ''Taylor Williams'',
            c_email = ''taylor.williams@example.com'', c_city = ''Chicago''\<rparr>],
          (fst three_customer_rng, 9))"
  by (simp add: run_defs three_customer_rng_def draws_of_def example_leaves
      three_customer_leaves upt_rec)

lemma draws_of_position:
  "fst three_customer_rng = draws_of
        [0, 0, 0, 1, 1, 1, 2, 2, 2,
         2, 1, 0, 1, 10, 1, 1, 0, 2, 0, 0, 0, 2,
         0,
         1, 0, 0, 2, 16, 17, 16, 0, 0, 0,
         0, 0, 0, 0, 1, 1, 4, 1]"
  by (simp add: three_customer_rng_def)

lemma three_customer_orders:
  "\<exists>st. generate_orders
       [\<lparr>c_customer_id = 1, c_name = ''Alex Smith'', c_email = ''alex.smith@example.com'',
            c_city = ''New York''\<rparr>,
           \<lparr>c_customer_id = 2, c_name = ''Jordan Johnson'',
            c_email = ''jordan.johnson@example.com'', c_city = ''San Francisco''\<rparr>,
           \<lparr>c_customer_id = 3, c_name = ''Taylor Williams'',
            c_email = ''taylor.williams@example.com'', c_city = ''Chicago''\<rparr>]
       generate_products (fst three_customer_rng, 9) example_clock = Inr st \<and>
     orders st =
       [\<lparr>o_order_id = 1, o_customer_id = 1, o_order_date = ''2026-11-03'',
          o_total_amount = ''83.99''\<rparr>,
        \<lparr>o_order_id = 2, o_customer_id = 1, o_order_date = ''2026-11-02'',
          o_total_amount = ''239.97''\<rparr>,
        \<lparr>o_order_id = 3, o_customer_id = 3, o_order_date = ''2026-11-04'',
          o_total_amount = ''78.00''\<rparr>] \<and>
     order_items st =
       [\<lparr>oi_order_item_id = 1, oi_order_id = 1, oi_product_id = 11, oi_quantity = 2\<rparr>,
        \<lparr>oi_order_item_id = 2, oi_order_id = 1, oi_product_id = 2, oi_quantity = 1\<rparr>,
        \<lparr>oi_order_item_id = 3, oi_order_id = 2, oi_product_id = 1, oi_quantity = 3\<rparr>,
        \<lparr>oi_order_item_id = 4, oi_order_id = 3, oi_product_id = 17, oi_quantity = 1\<rparr>,
        \<lparr>oi_order_item_id = 5, oi_order_id = 3, oi_product_id = 18, oi_quantity = 1\<rparr>,
        \<lparr>oi_order_item_id = 6, oi_order_id = 3, oi_product_id = 20, oi_quantity = 1\<rparr>] \<and>
     gen_rng st = (fst three_customer_rng, 33)"
proof -
  from catalog_lookup obtain L where
    L: "product_lookup_loop generate_products Map.empty = Inr L" and
    Ls: "L 1 = Some (Float (5628795846771343 / 70368744177664))"
        "L 2 = Some (Float (5626684784446013 / 281474976710656))"
        "L 11 = Some (Float 32)" "L 17 = Some (Float 22)" "L 18 = Some (Float 30)"
        "L 20 = Some (Float 26)"
    by auto
  have step: "generate_orders cs generate_products g c =
      orders_loop cs generate_products L
        \<lparr>orders = [], order_items = [], next_order_id = 1, next_order_item_id = 1,
         gen_rng = g, gen_clock = c\<rparr>" for cs g c
    by (simp add: generate_orders_def L)
  show ?thesis
    unfolding step draws_of_position
    by (simp add: run_defs draws_of_def example_clock_def example_leaves
        three_customer_leaves Ls generate_products_explicit sample_pool_numeral
        customer_orders_loop_numeral)
qed

lemma three_customer_reviews:
  "\<exists>g'. generate_reviews
       [\<lparr>c_customer_id = 1, c_name = ''Alex Smith'', c_email = ''alex.smith@example.com'',
            c_city = ''New York''\<rparr>,
           \<lparr>c_customer_id = 2, c_name = ''Jordan Johnson'',
            c_email = ''jordan.johnson@example.com'', c_city = ''San Francisco''\<rparr>,
           \<lparr>c_customer_id = 3, c_name = ''Taylor Williams'',
            c_email = ''taylor.williams@example.com'', c_city = ''Chicago''\<rparr>] generate_products (fst three_customer_rng, 33) =
     Inr ([\<lparr>r_review_id = 1, r_customer_id = 1, r_product_id = 1, r_rating = 1,
            r_comment = ''Loved it! Highly recommend.''\<rparr>,
           \<lparr>r_review_id = 2, r_customer_id = 2, r_product_id = 2, r_rating = 5,
            r_comment = ''Works as expected. Would buy again.''\<rparr>], g')"
proof -
  have p: "generate_products \<noteq> []" "length generate_products = 20"
    "generate_products ! 0 =
       \<lparr>p_product_id = 1, p_name = ''Wireless Earbuds'', p_category = ''Electronics'',
        p_price = ''79.99''\<rparr>"
    "generate_products ! Suc 0 =
       \<lparr>p_product_id = 2, p_name = ''Smartphone Case'', p_category = ''Electronics'',
        p_price = ''19.99''\<rparr>"
    by (simp_all add: generate_products_explicit)
  show ?thesis
    unfolding draws_of_position
    by (simp add: run_defs draws_of_def p reviews_loop_numeral)
qed

lemma three_customer_run:
  "generate_all 3 three_customer_rng example_clock =
     Inr \<lparr>ds_customers = [\<lparr>c_customer_id = 1, c_name = ''Alex Smith'', c_email = ''alex.smith@example.com'',
            c_city = ''New York''\<rparr>,
           \<lparr>c_customer_id = 2, c_name = ''Jordan Johnson'',
            c_email = ''jordan.johnson@example.com'', c_city = ''San Francisco''\<rparr>,
           \<lparr>c_customer_id = 3, c_name = ''Taylor Williams'',
            c_email = ''taylor.williams@example.com'', c_city = ''Chicago''\<rparr>],
          ds_products = generate_products,
          ds_orders = [\<lparr>o_order_id = 1, o_customer_id = 1, o_order_date = ''2026-11-03'',
          o_total_amount = ''83.99''\<rparr>,
        \<lparr>o_order_id = 2, o_customer_id = 1, o_order_date = ''2026-11-02'',
          o_total_amount = ''239.97''\<rparr>,
        \<lparr>o_order_id = 3, o_customer_id = 3, o_order_date = ''2026-11-04'',
          o_total_amount = ''78.00''\<rparr>],
          ds_order_items = [\<lparr>oi_order_item_id = 1, oi_order_id = 1, oi_product_id = 11, oi_quantity = 2\<rparr>,
        \<lparr>oi_order_item_id = 2, oi_order_id = 1, oi_product_id = 2, oi_quantity = 1\<rparr>,
        \<lparr>oi_order_item_id = 3, oi_order_id = 2, oi_product_id = 1, oi_quantity = 3\<rparr>,
        \<lparr>oi_order_item_id = 4, oi_order_id = 3, oi_product_id = 17, oi_quantity = 1\<rparr>,
        \<lparr>oi_order_item_id = 5, oi_order_id = 3, oi_product_id = 18, oi_quantity = 1\<rparr>,
        \<lparr>oi_order_item_id = 6, oi_order_id = 3, oi_product_id = 20, oi_quantity = 1\<rparr>],
          ds_reviews = [\<lparr>r_review_id = 1, r_customer_id = 1, r_product_id = 1, r_rating = 1,
            r_comment = ''Loved it! Highly recommend.''\<rparr>,
           \<lparr>r_review_id = 2, r_customer_id = 2, r_product_id = 2, r_rating = 5,
            r_comment = ''Works as expected. Would buy again.''\<rparr>]\<rparr>"
proof -
  from three_customer_orders obtain st where
    st: "generate_orders [\<lparr>c_customer_id = 1, c_name = ''Alex Smith'', c_email = ''alex.smith@example.com'',
            c_city = ''New York''\<rparr>,
           \<lparr>c_customer_id = 2, c_name = ''Jordan Johnson'',
            c_email = ''jordan.johnson@example.com'', c_city = ''San Francisco''\<rparr>,
           \<lparr>c_customer_id = 3, c_name = ''Taylor Williams'',
            c_email = ''taylor.williams@example.com'', c_city = ''Chicago''\<rparr>] generate_products (fst three_customer_rng, 9) example_clock = Inr st"
      "orders st = [\<lparr>o_order_id = 1, o_customer_id = 1, o_order_date = ''2026-11-03'',
          o_total_amount = ''83.99''\<rparr>,
        \<lparr>o_order_id = 2, o_customer_id = 1, o_order_date = ''2026-11-02'',
          o_total_amount = ''239.97''\<rparr>,
        \<lparr>o_order_id = 3, o_customer_id = 3, o_order_date = ''2026-11-04'',
          o_total_amount = ''78.00''\<rparr>]"
      "order_items st = [\<lparr>oi_order_item_id = 1, oi_order_id = 1, oi_product_id = 11, oi_quantity = 2\<rparr>,
        \<lparr>oi_order_item_id = 2, oi_order_id = 1, oi_product_id = 2, oi_quantity = 1\<rparr>,
        \<lparr>oi_order_item_id = 3, oi_order_id = 2, oi_product_id = 1, oi_quantity = 3\<rparr>,
        \<lparr>oi_order_item_id = 4, oi_order_id = 3, oi_product_id = 17, oi_quantity = 1\<rparr>,
        \<lparr>oi_order_item_id = 5, oi_order_id = 3, oi_product_id = 18, oi_quantity = 1\<rparr>,
        \<lparr>oi_order_item_id = 6, oi_order_id = 3, oi_product_id = 20, oi_quantity = 1\<rparr>]"
      "gen_rng st = (fst three_customer_rng, 33)"
    by blast
  from three_customer_reviews obtain g' where
    r: "generate_reviews [\<lparr>c_customer_id = 1, c_name = ''Alex Smith'', c_email = ''alex.smith@example.com'',
            c_city = ''New York''\<rparr>,
           \<lparr>c_customer_id = 2, c_name = ''Jordan Johnson'',
            c_email = ''jordan.johnson@example.com'', c_city = ''San Francisco''\<rparr>,
           \<lparr>c_customer_id = 3, c_name = ''Taylor Williams'',
            c_email = ''taylor.williams@example.com'', c_city = ''Chicago''\<rparr>] generate_products (fst three_customer_rng, 33) = Inr ([\<lparr>r_review_id = 1, r_customer_id = 1, r_product_id = 1, r_rating = 1,
            r_comment = ''Loved it! Highly recommend.''\<rparr>,
           \<lparr>r_review_id = 2, r_customer_id = 2, r_product_id = 2, r_rating = 5,
            r_comment = ''Works as expected. Would buy again.''\<rparr>], g')"
    by blast
  show ?thesis
    by (simp add: generate_all_def three_customers st r)
qed

theorem order_products_distinct_witness:
  "\<exists>d ord. generate_all 3 three_customer_rng example_clock = Inr d \<and>
     ord \<in> set (ds_orders d) \<and>
     map oi_product_id (order_lines (o_order_id ord) (ds_order_items d)) = [17, 18, 20] \<and>
     distinct (map oi_product_id (order_lines (o_order_id ord) (ds_order_items d)))"
proof -
  let ?ord = "\<lparr>o_order_id = 3, o_customer_id = 3, o_order_date = ''2026-11-04'',
          o_total_amount = ''78.00''\<rparr>"
  let ?d = "projr (generate_all 3 three_customer_rng example_clock)"
  have e: "generate_all 3 three_customer_rng example_clock = Inr ?d"
    by (simp add: three_customer_run)
  have m: "?ord \<in> set (ds_orders ?d)" by (simp add: three_customer_run)
  have n: "map oi_product_id (order_lines (o_order_id ?ord) (ds_order_items ?d)) = [17, 18, 20]"
    by (simp add: three_customer_run order_lines_def)
  show ?thesis
  proof (intro exI conjI)
    show "generate_all 3 three_customer_rng example_clock = Inr ?d" by (rule e)
    show "?ord \<in> set (ds_orders ?d)" by (rule m)
    show "map oi_product_id (order_lines (o_order_id ?ord) (ds_order_items ?d)) = [17, 18, 20]"
      by (rule n)
    show "distinct (map oi_product_id (order_lines (o_order_id ?ord) (ds_order_items ?d)))"
      by (rule order_products_distinct [OF e m])
  qed
qed

theorem ids_follow_generation_order_witness:
  "\<exists>d. generate_all 3 three_customer_rng example_clock = Inr d \<and>
     map c_customer_id (ds_customers d) = [1, 2, 3] \<and>
     map o_customer_id (ds_orders d) = [1, 1, 3] \<and>
     map oi_order_id (ds_order_items d) = [1, 1, 2, 3, 3, 3] \<and>
     map o_order_id (ds_orders d) = [1..int (length (ds_orders d))] \<and>
     map oi_order_item_id (ds_order_items d) = [1..int (length (ds_order_items d))] \<and>
     sorted (map oi_order_id (ds_order_items d)) \<and>
     (\<exists>ks. length ks = length (ds_customers d) \<and>
        map o_customer_id (ds_orders d) = customer_runs (ds_customers d) ks)"
proof -
  let ?d = "projr (generate_all 3 three_customer_rng example_clock)"
  have e: "generate_all 3 three_customer_rng example_clock = Inr ?d"
    by (simp add: three_customer_run)
  have n: "map c_customer_id (ds_customers ?d) = [1, 2, 3]"
    "map o_customer_id (ds_orders ?d) = [1, 1, 3]"
    "map oi_order_id (ds_order_items ?d) = [1, 1, 2, 3, 3, 3]"
    by (simp_all add: three_customer_run)
  from ids_follow_generation_order [OF e] have
    t: "map o_order_id (ds_orders ?d) = [1..int (length (ds_orders ?d))] \<and>
     map oi_order_item_id (ds_order_items ?d) = [1..int (length (ds_order_items ?d))] \<and>
     sorted (map oi_order_id (ds_order_items ?d)) \<and>
     (\<exists>ks. length ks = length (ds_customers ?d) \<and>
        map o_customer_id (ds_orders ?d) = customer_runs (ds_customers ?d) ks)" .
  show ?thesis
    by (rule exI [of _ ?d]) (intro conjI e n t [THEN conjunct1]
        t [THEN conjunct2, THEN conjunct1] t [THEN conjunct2, THEN conjunct2, THEN conjunct1]
        t [THEN conjunct2, THEN conjunct2, THEN conjunct2])
qed

lemma round_half_even_cases:
  "round_half_even x = \<lfloor>x\<rfloor> \<and> x - of_int \<lfloor>x\<rfloor> \<le> 1 / 2 \<or>
   round_half_even x = \<lfloor>x\<rfloor> + 1 \<and> 1 / 2 \<le> x - of_int \<lfloor>x\<rfloor>"
  by (auto simp: round_half_even_def Let_def)

lemma round_half_even_error: "\<bar>of_int (round_half_even x) - x\<bar> \<le> 1 / 2"
proof -
  have f: "of_int \<lfloor>x\<rfloor> \<le> x" "x < of_int \<lfloor>x\<rfloor> + 1" by linarith+
  from round_half_even_cases [of x] show ?thesis
  proof
    assume "round_half_even x = \<lfloor>x\<rfloor> \<and> x - of_int \<lfloor>x\<rfloor> \<le> 1 / 2"
    with f show ?thesis by simp
  next
    assume "round_half_even x = \<lfloor>x\<rfloor> + 1 \<and> 1 / 2 \<le> x - of_int \<lfloor>x\<rfloor>"
    with f show ?thesis by simp
  qed
qed

lemma round_half_even_nonneg: "0 \<le> x \<Longrightarrow> 0 \<le> round_half_even x"
proof -
  assume "0 \<le> x"
  then have "0 \<le> \<lfloor>x\<rfloor>" by simp
  with round_half_even_cases [of x] show ?thesis by auto
qed

lemma round_half_even_near:
  assumes "\<bar>x - of_int c\<bar> < 1 / 2"
  shows "round_half_even x = c"
proof (cases "of_int c \<le> x")
  case True
  with assms have "x < of_int c + 1 / 2" by simp
  with True have fl: "\<lfloor>x\<rfloor> = c" by (intro floor_unique) simp_all
  with \<open>x < of_int c + 1 / 2\<close> show ?thesis
    by (simp add: round_half_even_def Let_def)
next
  case False
  with assms have b: "of_int c - 1 / 2 < x" "x < of_int c" by simp_all
  then have fl: "\<lfloor>x\<rfloor> = c - 1" by (intro floor_unique) simp_all
  with b show ?thesis
    by (simp add: round_half_even_def Let_def)
qed

lemma binade_lower:
  assumes "x \<noteq> 0"
  shows "2 powi (binade x) \<le> \<bar>x\<bar>"
proof -
  obtain p q where pq: "quotient_of \<bar>x\<bar> = (p, q)" by (cases "quotient_of \<bar>x\<bar>")
  from quotient_of_denom_pos [OF pq] have q: "0 < q" .
  from quotient_of_div [OF pq] have x: "\<bar>x\<bar> = of_int p / of_int q" .
  from assms have "0 < \<bar>x\<bar>" by simp
  with x q have p: "0 < p" by (simp add: zero_less_divide_iff)
  define bp where "bp = bitlen p"
  define bq where "bq = bitlen q"
  from bitlen_bounds [OF p] have p1: "2 ^ nat (bp - 1) \<le> p" by (simp add: bp_def)
  from bitlen_bounds [OF q] have q1: "q < 2 ^ nat bq" by (simp add: bq_def)
  have bp1: "1 \<le> bp" using p by (simp add: bp_def bitlen_alt_def)
  have bq1: "1 \<le> bq" using q by (simp add: bq_def bitlen_alt_def)
  have low: "(2::rat) powi (bp - bq - 1) \<le> \<bar>x\<bar>"
  proof -
    have "(2::rat) powi (bp - bq - 1) = 2 powi (bp - 1) / 2 powi bq"
      using power_int_diff [of "2::rat" "bp - 1" bq] by (simp add: algebra_simps)
    also have "\<dots> = 2 ^ nat (bp - 1) / 2 ^ nat bq"
      using bp1 bq1 by (simp add: power_int_def)
    also have "\<dots> \<le> of_int p / of_int q"
    proof (rule frac_le)
      show "(0::rat) \<le> of_int p" using p by simp
      have "(of_int (2 ^ nat (bp - 1)) :: rat) \<le> of_int p" using p1 by (simp only: of_int_le_iff)
      then show "(2::rat) ^ nat (bp - 1) \<le> of_int p" by simp
      show "(0::rat) < of_int q" using q by simp
      have "(of_int q :: rat) \<le> of_int (2 ^ nat bq)" using q1 by (simp only: of_int_le_iff)
      then show "(of_int q :: rat) \<le> 2 ^ nat bq" by simp
    qed
    finally show ?thesis by (simp add: x)
  qed
  show ?thesis
  proof (cases "(2::rat) powi (bp - bq) \<le> \<bar>x\<bar>")
    case True
    then show ?thesis by (simp add: binade_def pq bp_def bq_def)
  next
    case False
    then have "binade x = bp - bq - 1" by (simp add: binade_def pq bp_def bq_def)
    with low show ?thesis by simp
  qed
qed

lemma fl_error: "\<bar>fl x - x\<bar> * 2 ^ 53 \<le> \<bar>x\<bar>"
proof (cases "x = 0")
  case True
  then show ?thesis by (simp add: fl_def)
next
  case False
  define ulp :: rat where "ulp = 2 powi (binade x - 52)"
  define r where "r = round_half_even (x / ulp)"
  have ulp_pos: "0 < ulp" by (simp add: ulp_def)
  have flx: "fl x = of_int r * ulp" using False by (simp add: fl_def ulp_def r_def Let_def)
  have "fl x - x = (of_int r - x / ulp) * ulp" using ulp_pos by (simp add: flx field_simps)
  then have "\<bar>fl x - x\<bar> = \<bar>of_int r - x / ulp\<bar> * ulp"
    using ulp_pos by (simp add: abs_mult)
  also have "\<dots> \<le> 1 / 2 * ulp"
    using round_half_even_error [of "x / ulp"] ulp_pos
    by (intro mult_right_mono) (simp_all add: r_def)
  finally have e: "\<bar>fl x - x\<bar> \<le> ulp / 2" by simp
  have "ulp = 2 powi (binade x) / 2 powi 52"
    unfolding ulp_def using power_int_diff [of "2::rat" "binade x" 52] by simp
  then have "ulp = 2 powi (binade x) / 2 ^ 52" by (simp add: power_int_def)
  then have "ulp / 2 * 2 ^ 53 = 2 powi (binade x)" by simp
  with binade_lower [OF False] have "ulp / 2 * 2 ^ 53 \<le> \<bar>x\<bar>" by simp
  moreover have "\<bar>fl x - x\<bar> * 2 ^ 53 \<le> ulp / 2 * 2 ^ 53"
    using e by (intro mult_right_mono) simp_all
  ultimately show ?thesis by linarith
qed

lemma fl_nonneg: "0 \<le> x \<Longrightarrow> 0 \<le> fl x"
proof -
  assume x: "0 \<le> x"
  have "0 < (2::rat) powi (binade x - 52)" by simp
  with x have "0 \<le> x / 2 powi (binade x - 52)" by simp
  from round_half_even_nonneg [OF this] show ?thesis
    by (simp add: fl_def Let_def)
qed

lemma fl_small_ints: "fl 1 = 1" "fl 2 = 2" "fl 3 = 3"
  by (code_simp, code_simp, code_simp)

lemma fl_upper: "0 \<le> x \<Longrightarrow> fl x * 2 ^ 53 \<le> x * (2 ^ 53 + 1)"
proof -
  assume "0 \<le> x"
  with fl_error [of x] have "\<bar>fl x - x\<bar> * 2 ^ 53 \<le> x" by simp
  then have "(fl x - x) * 2 ^ 53 \<le> x"
    by (smt (verit) abs_ge_self mult_right_mono order_trans zero_le_numeral zero_le_power)
  then show ?thesis by (simp add: algebra_simps)
qed

lemma line_total_error:
  assumes L: "L (oi_product_id i) = Some (Float (fl p))"
    and p: "0 \<le> p" "p \<le> 200"
    and q: "1 \<le> oi_quantity i" "oi_quantity i \<le> 3"
  shows "\<exists>lt. line_total L i = Float lt \<and> 0 \<le> lt \<and> lt \<le> 601 \<and>
     \<bar>lt - of_int (oi_quantity i) * p\<bar> * 2 ^ 53 \<le> 1300"
proof -
  define q where "q = oi_quantity i"
  define P where "P = fl p"
  define lt where "lt = fl (P * of_int q)"
  from assms(4,5) have qc: "q = 1 \<or> q = 2 \<or> q = 3" unfolding q_def by auto
  then have fq: "fl (of_int q) = of_int q" using fl_small_ints by auto
  have lt: "line_total L i = Float lt"
    by (simp add: line_total_def L float_of_int_def fmul.simps fq lt_def P_def q_def [symmetric])
  have P0: "0 \<le> P" unfolding P_def using p(1) by (rule fl_nonneg)
  have Pe: "\<bar>P - p\<bar> * 2 ^ 53 \<le> p" using fl_error [of p] p(1) by (simp add: P_def)
  have q0: "(0::rat) \<le> of_int q" "(of_int q :: rat) \<le> 3" using qc by auto
  have Pq0: "0 \<le> P * of_int q" using P0 q0 by simp
  have lt0: "0 \<le> lt" unfolding lt_def using Pq0 by (rule fl_nonneg)
  have lte: "\<bar>lt - P * of_int q\<bar> * 2 ^ 53 \<le> P * of_int q"
    using fl_error [of "P * of_int q"] Pq0 by (simp add: lt_def)
  have Pu: "P \<le> 2001 / 10"
  proof -
    have "(P - p) * 2 ^ 53 \<le> \<bar>P - p\<bar> * 2 ^ 53" by (intro mult_right_mono) simp_all
    with Pe p show ?thesis by simp
  qed
  have a: "lt \<le> 601 \<and> \<bar>lt - of_int q * p\<bar> * 2 ^ 53 \<le> 1300"
    using qc
  proof (elim disjE)
    assume "q = 1"
    with lte Pe Pu p P0 show ?thesis by (simp add: abs_if split: if_splits)
  next
    assume "q = 2"
    with lte Pe Pu p P0 show ?thesis by (simp add: abs_if split: if_splits)
  next
    assume "q = 3"
    with lte Pe Pu p P0 show ?thesis by (simp add: abs_if split: if_splits)
  qed
  with lt lt0 show ?thesis by (auto simp: q_def)
qed

lemma float_subtotal_Cons:
  "float_subtotal L (i # items) s = float_subtotal L items (fadd s (line_total L i))"
  by (simp add: float_subtotal_def)

lemma float_subtotal_error:
  fixes P :: "int \<Rightarrow> rat"
  assumes "\<forall>i\<in>set items. L (oi_product_id i) = Some (Float (fl (P (oi_product_id i)))) \<and>
        0 \<le> P (oi_product_id i) \<and> P (oi_product_id i) \<le> 200 \<and>
        1 \<le> oi_quantity i \<and> oi_quantity i \<le> 3"
    and "0 \<le> s" and "\<bar>s - E\<bar> * 2 ^ 53 \<le> 4000 * of_nat k"
    and "0 \<le> E" and "E \<le> 600 * of_nat k" and "k + length items \<le> 4"
  shows "\<exists>s'. float_subtotal L items (Float s) = Float s' \<and> 0 \<le> s' \<and>
     \<bar>s' - (E + (\<Sum>i\<leftarrow>items. of_int (oi_quantity i) * P (oi_product_id i)))\<bar> * 2 ^ 53
       \<le> 4000 * of_nat (k + length items)"
  using assms
proof (induction items arbitrary: s E k)
  case Nil
  then show ?case by (simp add: float_subtotal_def)
next
  case (Cons i items)
  define p where "p = P (oi_product_id i)"
  define q :: rat where "q = of_int (oi_quantity i)"
  from Cons.prems(1) have
    i: "L (oi_product_id i) = Some (Float (fl p))" "0 \<le> p" "p \<le> 200"
       "1 \<le> oi_quantity i" "oi_quantity i \<le> 3"
    by (simp_all add: p_def)
  from line_total_error [of L i p, OF i] obtain lt where
    lt: "line_total L i = Float lt" "0 \<le> lt" "lt \<le> 601"
        "\<bar>lt - q * p\<bar> * 2 ^ 53 \<le> 1300"
    by (auto simp: q_def)
  define s1 where "s1 = fl (s + lt)"
  have k3: "(of_nat k :: rat) \<le> 3" using Cons.prems(6) by simp
  have k0: "(0 :: rat) \<le> of_nat k" by simp
  have qp: "0 \<le> q * p" "q * p \<le> 600"
  proof -
    have "0 \<le> q" "q \<le> 3" using i(4,5) by (simp_all add: q_def)
    then show "0 \<le> q * p" using i(2) by simp
    have "q * p \<le> 3 * 200" using \<open>0 \<le> q\<close> \<open>q \<le> 3\<close> i(2,3) by (intro mult_mono) simp_all
    then show "q * p \<le> 600" by simp
  qed
  have sl0: "0 \<le> s + lt" using Cons.prems(2) lt(2) by simp
  have s10: "0 \<le> s1" unfolding s1_def using sl0 by (rule fl_nonneg)
  have s1e: "\<bar>s1 - (s + lt)\<bar> * 2 ^ 53 \<le> s + lt"
    using fl_error [of "s + lt"] sl0 by (simp add: s1_def)
  have su: "s \<le> 1801"
  proof -
    have "(s - E) * 2 ^ 53 \<le> \<bar>s - E\<bar> * 2 ^ 53" by (intro mult_right_mono) simp_all
    with Cons.prems(3,5) k3 show ?thesis by simp
  qed
  have e1: "\<bar>s1 - (E + q * p)\<bar> * 2 ^ 53 \<le> 4000 * of_nat (Suc k)"
  proof -
    have "\<bar>s1 - (E + q * p)\<bar> \<le> \<bar>s1 - (s + lt)\<bar> + \<bar>s - E\<bar> + \<bar>lt - q * p\<bar>"
      by simp
    then have "\<bar>s1 - (E + q * p)\<bar> * 2 ^ 53 \<le>
        (\<bar>s1 - (s + lt)\<bar> + \<bar>s - E\<bar> + \<bar>lt - q * p\<bar>) * 2 ^ 53"
      by (intro mult_right_mono) simp_all
    also have "\<dots> = \<bar>s1 - (s + lt)\<bar> * 2 ^ 53 + \<bar>s - E\<bar> * 2 ^ 53 + \<bar>lt - q * p\<bar> * 2 ^ 53"
      by (simp add: algebra_simps)
    also have "\<dots> \<le> (s + lt) + 4000 * of_nat k + 1300"
      using s1e Cons.prems(3) lt(4) by simp
    also have "\<dots> \<le> 4000 * of_nat (Suc k)"
      using su lt(3) by simp
    finally show ?thesis .
  qed
  have E1: "0 \<le> E + q * p" "E + q * p \<le> 600 * of_nat (Suc k)"
    using Cons.prems(4,5) qp by simp_all
  have rest: "\<forall>i\<in>set items. L (oi_product_id i) = Some (Float (fl (P (oi_product_id i)))) \<and>
        0 \<le> P (oi_product_id i) \<and> P (oi_product_id i) \<le> 200 \<and>
        1 \<le> oi_quantity i \<and> oi_quantity i \<le> 3"
    using Cons.prems(1) by simp
  have len: "Suc k + length items \<le> 4" using Cons.prems(6) by simp
  from Cons.IH [OF rest s10 e1 E1 len] obtain s' where
    s': "float_subtotal L items (Float s1) = Float s'" "0 \<le> s'"
      "\<bar>s' - (E + q * p + (\<Sum>i\<leftarrow>items. of_int (oi_quantity i) * P (oi_product_id i)))\<bar> * 2 ^ 53
         \<le> 4000 * of_nat (Suc k + length items)"
    by blast
  have "float_subtotal L (i # items) (Float s) = Float s'"
    by (simp add: float_subtotal_Cons lt(1) fadd.simps s1_def [symmetric] s'(1))
  moreover have "E + q * p + (\<Sum>i\<leftarrow>items. of_int (oi_quantity i) * P (oi_product_id i)) =
      E + (\<Sum>i\<leftarrow>i # items. of_int (oi_quantity i) * P (oi_product_id i))"
    by (simp add: q_def p_def)
  ultimately show ?case using s'(2,3) by (intro exI [of _ s']) (simp add: add.assoc)
qed

lemma two_decimals_near:
  assumes "0 \<le> x" and "0 \<le> c" and "\<bar>x * 100 - of_int c\<bar> < 1 / 2"
  shows "two_decimals x = two_decimals (of_int c / 100)"
proof -
  have a: "round_half_even (\<bar>x\<bar> * 100) = c"
    using assms(1,3) by (intro round_half_even_near) simp
  have b: "round_half_even (\<bar>of_int c / 100 :: rat\<bar> * 100) = c"
    using assms(2) by (intro round_half_even_near) simp
  have "\<not> x < 0" "\<not> (of_int c / 100 :: rat) < 0" using assms(1,2) by simp_all
  then show ?thesis
    unfolding two_decimals_def a b by simp
qed

lemma exact_sum_cents:
  fixes P :: "int \<Rightarrow> rat"
  assumes "\<forall>i\<in>set items. 0 \<le> oi_quantity i \<and> (\<exists>c. 0 \<le> c \<and> P (oi_product_id i) * 100 = of_int c)"
  shows "\<exists>c. 0 \<le> c \<and> (\<Sum>i\<leftarrow>items. of_int (oi_quantity i) * P (oi_product_id i)) * 100 = of_int c"
  using assms
proof (induction items)
  case Nil
  show ?case by (intro exI [of _ 0]) simp
next
  case (Cons i items)
  then obtain c1 c2 where
    c1: "0 \<le> c1" "P (oi_product_id i) * 100 = of_int c1" and
    c2: "0 \<le> c2" "(\<Sum>i\<leftarrow>items. of_int (oi_quantity i) * P (oi_product_id i)) * 100 = of_int c2"
    by auto
  from Cons.prems have q: "0 \<le> oi_quantity i" by simp
  have "(\<Sum>i\<leftarrow>i # items. of_int (oi_quantity i) * P (oi_product_id i)) * 100 =
      of_int (oi_quantity i) * (P (oi_product_id i) * 100) +
      (\<Sum>i\<leftarrow>items. of_int (oi_quantity i) * P (oi_product_id i)) * 100"
    by (simp add: algebra_simps)
  also have "\<dots> = of_int (oi_quantity i * c1 + c2)" by (simp add: c1 c2)
  finally show ?case using q c1(1) c2(1) by (intro exI [of _ "oi_quantity i * c1 + c2"]) simp
qed

lemma float_of_str_Inr:
  "float_of_str s = Inr f \<Longrightarrow> \<exists>v. decimal_of_str s = Some v \<and> f = Float (fl v)"
  by (auto simp: float_of_str_def split: option.splits)

lemma product_lookup_loop_outside:
  "product_lookup_loop ps m = Inr L \<Longrightarrow> k \<notin> p_product_id ` set ps \<Longrightarrow> L k = m k"
proof (induction ps arbitrary: m)
  case Nil
  then show ?case by simp
next
  case (Cons p ps)
  from Cons.prems(1) obtain f where
    r: "product_lookup_loop ps (m(p_product_id p \<mapsto> f)) = Inr L"
    by (auto split: sum.splits)
  from Cons.prems(2) have "k \<notin> p_product_id ` set ps" "k \<noteq> p_product_id p" by auto
  with Cons.IH [OF r] show ?case by simp
qed

lemma product_lookup_loop_values:
  "distinct (map p_product_id ps) \<Longrightarrow> product_lookup_loop ps m = Inr L \<Longrightarrow> p \<in> set ps \<Longrightarrow>
     \<exists>v. decimal_of_str (p_price p) = Some v \<and> L (p_product_id p) = Some (Float (fl v))"
proof (induction ps arbitrary: m)
  case Nil
  then show ?case by simp
next
  case (Cons a ps)
  from Cons.prems(2) obtain f where
    f: "float_of_str (p_price a) = Inr f" and
    r: "product_lookup_loop ps (m(p_product_id a \<mapsto> f)) = Inr L"
    by (auto split: sum.splits)
  from Cons.prems(1) have d: "distinct (map p_product_id ps)" "p_product_id a \<notin> p_product_id ` set ps"
    by simp_all
  show ?case
  proof (cases "p \<in> set ps")
    case True
    from Cons.IH [OF d(1) r True] show ?thesis .
  next
    case False
    with Cons.prems(3) have pa: "p = a" by simp
    from product_lookup_loop_outside [OF r d(2)] have "L (p_product_id a) = Some f" by simp
    with float_of_str_Inr [OF f] show ?thesis by (auto simp: pa)
  qed
qed

lemma find_distinct_key:
  "distinct (map f xs) \<Longrightarrow> x \<in> set xs \<Longrightarrow> find (\<lambda>y. f y = f x) xs = Some x"
  by (induction xs) (auto simp: image_iff)

lemma unit_price_eq:
  assumes "distinct (map p_product_id ps)" and "p \<in> set ps"
    and "decimal_of_str (p_price p) = Some v"
  shows "unit_price ps (p_product_id p) = v"
  using find_distinct_key [OF assms(1,2)] assms(3) by (simp add: unit_price_def)

lemma catalog_prices:
  assumes "p \<in> set generate_products"
  shows "\<exists>v c. decimal_of_str (p_price p) = Some v \<and> 0 \<le> v \<and> v \<le> 200 \<and> 0 \<le> c \<and>
     v * 100 = of_int c"
proof -
  have "list_all (\<lambda>p. case decimal_of_str (p_price p) of None \<Rightarrow> False
      | Some v \<Rightarrow> 0 \<le> v \<and> v \<le> 200 \<and> of_int \<lfloor>v * 100\<rfloor> = v * 100) generate_products"
    unfolding generate_products_explicit by code_simp
  with assms obtain v n where
    v: "decimal_of_str (p_price p) = Some v" "0 \<le> v" "v \<le> 200" "v * 100 = of_int n"
    by (auto simp: list_all_iff split: option.splits)
  have "(0::rat) \<le> of_int n" using v(2) by (simp add: v(4) [symmetric])
  then have "0 \<le> n" by simp
  with v show ?thesis by (intro exI [of _ v] exI [of _ n]) simp
qed

lemma digit_val_digit_char: "d < 10 \<Longrightarrow> digit_val (digit_char d) = Some d"
  by (simp add: digit_val_def digit_char_def)

lemma digit_char_code: "d < 10 \<Longrightarrow> (of_char (digit_char d) :: nat) = 48 + d"
  by (simp add: digit_char_def)

lemma digit_char_plain:
  assumes "d < 10"
  shows "digit_char d \<noteq> CHR ''.''" "digit_char d \<noteq> CHR ''-''" "digit_char d \<noteq> CHR ''+''"
proof -
  have a: "(of_char (digit_char d) :: nat) \<noteq> of_char (CHR ''.'')"
    "(of_char (digit_char d) :: nat) \<noteq> of_char (CHR ''-'')"
    "(of_char (digit_char d) :: nat) \<noteq> of_char (CHR ''+'')"
    using assms by (simp_all add: digit_char_code)
  from a(1) show "digit_char d \<noteq> CHR ''.''" by auto
  from a(2) show "digit_char d \<noteq> CHR ''-''" by auto
  from a(3) show "digit_char d \<noteq> CHR ''+''" by auto
qed

lemma digits_val_append:
  "digits_val (xs @ ys) acc =
     (case digits_val xs acc of None \<Rightarrow> None | Some a \<Rightarrow> digits_val ys a)"
  by (induction xs arbitrary: acc) (auto split: option.splits)

lemma digits_val_digits: "0 \<le> n \<Longrightarrow> digits_val (digits n) 0 = Some (nat n)"
proof (induction n rule: digits.induct)
  case (1 n)
  show ?case
  proof (cases "n < 10")
    case True
    with "1.prems" have "nat n < 10" by simp
    then show ?thesis
      using True by (subst digits.simps) (simp add: digit_val_digit_char)
  next
    case False
    with "1.prems" have h: "0 \<le> n div 10" by simp
    have m: "nat (n mod 10) < 10" by simp
    have "int (10 * nat (n div 10) + nat (n mod 10)) = 10 * (n div 10) + n mod 10"
      using h by simp
    also have "\<dots> = n" by simp
    finally have e: "10 * nat (n div 10) + nat (n mod 10) = nat n" by linarith
    from "1.IH" [OF False h] show ?thesis
      using False
      by (subst digits.simps) (simp add: digits_val_append digit_val_digit_char [OF m] e)
  qed
qed

lemma digits_chars: "0 \<le> n \<Longrightarrow> ch \<in> set (digits n) \<Longrightarrow> \<exists>d<10. ch = digit_char d"
proof (induction n rule: digits.induct)
  case (1 n)
  show ?case
  proof (cases "n < 10")
    case True
    with "1.prems" have "nat n < 10" "ch = digit_char (nat n)"
      by (simp_all add: digits.simps [of n])
    then show ?thesis by blast
  next
    case False
    with "1.prems"(2) have "ch \<in> set (digits (n div 10)) \<or> ch = digit_char (nat (n mod 10))"
      by (auto simp: digits.simps [of n])
    then show ?thesis
    proof
      assume "ch \<in> set (digits (n div 10))"
      moreover have "0 \<le> n div 10" using "1.prems"(1) by simp
      ultimately show ?thesis using "1.IH" [OF False] by blast
    next
      assume "ch = digit_char (nat (n mod 10))"
      moreover have "nat (n mod 10) < 10" by simp
      ultimately show ?thesis by blast
    qed
  qed
qed

lemma digits_nonempty: "digits n \<noteq> []"
  by (subst digits.simps) simp

lemma round_half_even_of_int: "round_half_even (of_int c) = c"
  by (rule round_half_even_near) simp

lemma two_decimals_cents:
  assumes "0 \<le> c"
  shows "two_decimals (of_int c / 100) =
     digits (c div 100) @ CHR ''.'' #
       [digit_char (nat (c mod 100 div 10)), digit_char (nat (c mod 10))]"
proof -
  have "\<bar>of_int c / 100 :: rat\<bar> * 100 = of_int c" using assms by simp
  moreover have "\<not> (of_int c / 100 :: rat) < 0" using assms by simp
  ultimately show ?thesis
    by (simp add: two_decimals_def round_half_even_of_int)
qed

lemma decimal_of_two_decimals:
  assumes c: "0 \<le> c"
  shows "decimal_of_str (two_decimals (of_int c / 100)) = Some (of_int c / 100)"
proof -
  define ip where "ip = digits (c div 100)"
  define d1 where "d1 = nat (c mod 100 div 10)"
  define d2 where "d2 = nat (c mod 10)"
  define fp where "fp = [digit_char d1, digit_char d2]"
  have td: "two_decimals (of_int c / 100) = ip @ CHR ''.'' # fp"
    using two_decimals_cents [OF c] by (simp add: ip_def d1_def d2_def fp_def)
  have h: "0 \<le> c div 100" using c by simp
  have d: "d1 < 10" "d2 < 10" by (simp_all add: d1_def d2_def)
  have plain: "ch \<noteq> CHR ''.'' \<and> ch \<noteq> CHR ''-'' \<and> ch \<noteq> CHR ''+''" if "ch \<in> set ip" for ch
  proof -
    from digits_chars [OF h that [unfolded ip_def]] obtain k where "k < 10" "ch = digit_char k"
      by blast
    with digit_char_plain [of k] show ?thesis by simp
  qed
  obtain x xs where ip: "ip = x # xs"
    using digits_nonempty [of "c div 100"] by (cases ip) (simp_all add: ip_def)
  have x: "x \<noteq> CHR ''-''" "x \<noteq> CHR ''+''" using plain [of x] by (simp_all add: ip)
  have tw: "takeWhile (\<lambda>ch. ch \<noteq> CHR ''.'') (ip @ CHR ''.'' # fp) = ip"
    using plain by (simp add: takeWhile_append2)
  have dw: "dropWhile (\<lambda>ch. ch \<noteq> CHR ''.'') (ip @ CHR ''.'' # fp) = CHR ''.'' # fp"
    using plain by (simp add: dropWhile_append2)
  have vi: "digits_val ip 0 = Some (nat (c div 100))"
    unfolding ip_def using h by (rule digits_val_digits)
  have vf: "digits_val fp 0 = Some (10 * d1 + d2)"
    by (simp add: fp_def digit_val_digit_char d)
  have "int (10 * d1 + d2) = 10 * (c mod 100 div 10) + c mod 10"
    using c by (simp add: d1_def d2_def)
  also have "\<dots> = 10 * (c mod 100 div 10) + c mod 100 mod 10"
    by (simp add: mod_mod_cancel)
  also have "\<dots> = c mod 100" by simp
  finally have f: "int (10 * d1 + d2) = c mod 100" .
  have "(of_nat (nat (c div 100)) :: rat) + of_nat (10 * d1 + d2) / 10 ^ length fp =
      of_int (c div 100) + of_int (c mod 100) / 100"
  proof -
    have "(of_nat (10 * d1 + d2) :: rat) = of_int (int (10 * d1 + d2))" by simp
    also have "\<dots> = of_int (c mod 100)" by (simp only: f)
    finally have "(of_nat (10 * d1 + d2) :: rat) = of_int (c mod 100)" .
    moreover have "(of_nat (nat (c div 100)) :: rat) = of_int (c div 100)" using h by simp
    ultimately show ?thesis by (simp add: fp_def)
  qed
  also have "\<dots> = of_int c / 100"
  proof -
    have "(of_int c :: rat) = of_int (100 * (c div 100) + c mod 100)" by simp
    also have "\<dots> = 100 * of_int (c div 100) + of_int (c mod 100)"
      by (simp only: of_int_add of_int_mult of_int_numeral)
    finally have cc: "(of_int c :: rat) = 100 * of_int (c div 100) + of_int (c mod 100)" .
    show ?thesis by (simp add: cc add_divide_distrib)
  qed
  finally have v: "(of_nat (nat (c div 100)) :: rat) + of_nat (10 * d1 + d2) / 10 ^ length fp =
      of_int c / 100" .
  define s where "s = ip @ CHR ''.'' # fp"
  have hd: "(case s of [] \<Rightarrow> (False, s)
       | ch # cs \<Rightarrow>
           if ch = CHR ''-'' then (True, cs) else if ch = CHR ''+'' then (False, cs) else (False, s)) =
      (False, s)"
    using x by (simp add: s_def ip)
  have ne: "ip \<noteq> []" by (simp add: ip)
  have "decimal_of_str s = Some (of_int c / 100)"
    unfolding decimal_of_str_def hd
    using ne by (simp add: tw [folded s_def] dw [folded s_def] vi vf v Let_def
        del: of_nat_add of_nat_mult)
  then show ?thesis by (simp only: td s_def)
qed

lemma round_2dp_cents: "round_2dp (of_int c / 100) = of_int c / 100"
proof -
  have "\<lfloor>(of_int c :: rat) + 1 / 2\<rfloor> = c" by (intro floor_unique) simp_all
  then show ?thesis by (simp add: round_2dp_def)
qed

text \<open>
  Claim C1. In the tables of one generation run, the total of every order is the exact sum
  of its lines, quantity times the unit price of the product as the products table gives it,
  rounded to two decimals: the string written by the format \<open>.2f\<close> from the float
  subtotal is the two-decimal rendering of the exact rational sum, and read back as a decimal
  it is that sum rounded half up to a whole number of cents. The float subtotal is computed
  with one rounding per multiplication and per addition; the error of at most four lines stays
  far below half a cent, and the exact sum is a whole number of cents.
\<close>
theorem order_total_exact:
  assumes "generate_all n g c = Inr d" and "ord \<in> set (ds_orders d)"
  shows "o_total_amount ord =
       two_decimals (exact_total (ds_products d)
         (order_lines (o_order_id ord) (ds_order_items d))) \<and>
     decimal_of_str (o_total_amount ord) =
       Some (round_2dp (exact_total (ds_products d)
         (order_lines (o_order_id ord) (ds_order_items d))))"
proof -
  from generate_all_Inr [OF assms(1)] obtain cs g1 st where
    o: "generate_orders cs generate_products g1 c = Inr st" and
    d: "ds_orders d = orders st" "ds_order_items d = order_items st"
       "ds_products d = generate_products"
    by auto
  from generate_orders_inv [OF o] obtain L where
    L: "product_lookup_loop generate_products Map.empty = Inr L" and
    inv: "orders_inv cs generate_products L st"
    by blast
  define lines where "lines = order_lines (o_order_id ord) (order_items st)"
  define P where "P = unit_price generate_products"
  define T where "T = exact_total generate_products lines"
  from assms(2) have m: "ord \<in> set (orders st)" by (simp add: d)
  from inv m have len: "length lines \<in> {1..4}" and
    tot: "o_total_amount ord = format_2f (float_subtotal L lines (Float 0))"
    unfolding orders_inv_def lines_def by blast+
  from inv m obtain chosen where
    ch: "map oi_product_id lines = map p_product_id chosen"
        "mset chosen \<subseteq># mset generate_products"
    unfolding orders_inv_def lines_def by blast
  from inv have qty: "\<forall>i\<in>set (order_items st). 1 \<le> oi_quantity i \<and> oi_quantity i \<le> 3"
    unfolding orders_inv_def by blast
  have dist: "distinct (map p_product_id generate_products)"
    by (simp add: generate_products_ids)
  have sub: "set chosen \<subseteq> set generate_products"
    using ch(2) by (metis set_mset_mono set_mset_mset)
  have each: "L (oi_product_id i) = Some (Float (fl (P (oi_product_id i)))) \<and>
        0 \<le> P (oi_product_id i) \<and> P (oi_product_id i) \<le> 200 \<and>
        1 \<le> oi_quantity i \<and> oi_quantity i \<le> 3 \<and>
        (\<exists>k. 0 \<le> k \<and> P (oi_product_id i) * 100 = of_int k)" if i: "i \<in> set lines" for i
  proof -
    from i have "i \<in> set (order_items st)" by (simp add: lines_def order_lines_def)
    with qty have q: "1 \<le> oi_quantity i" "oi_quantity i \<le> 3" by simp_all
    from i have "oi_product_id i \<in> set (map oi_product_id lines)" by simp
    then have "oi_product_id i \<in> set (map p_product_id chosen)" by (simp only: ch(1))
    then obtain p where p: "p \<in> set chosen" "p_product_id p = oi_product_id i" by auto
    with sub have pg: "p \<in> set generate_products" by auto
    from product_lookup_loop_values [OF dist L pg] obtain v where
      v: "decimal_of_str (p_price p) = Some v" "L (p_product_id p) = Some (Float (fl v))"
      by blast
    from unit_price_eq [OF dist pg v(1)] have u: "P (oi_product_id i) = v"
      by (simp add: P_def p(2))
    from catalog_prices [OF pg] v(1) obtain k where
      "0 \<le> v" "v \<le> 200" "0 \<le> k" "v * 100 = of_int k" by auto
    with v(2) q u show ?thesis by (auto simp: p(2))
  qed
  have a1: "\<forall>i\<in>set lines. L (oi_product_id i) = Some (Float (fl (P (oi_product_id i)))) \<and>
        0 \<le> P (oi_product_id i) \<and> P (oi_product_id i) \<le> 200 \<and>
        1 \<le> oi_quantity i \<and> oi_quantity i \<le> 3"
    using each by blast
  have a2: "\<forall>i\<in>set lines. 0 \<le> oi_quantity i \<and>
      (\<exists>k. 0 \<le> k \<and> P (oi_product_id i) * 100 = of_int k)"
    using each by force
  have l4: "0 + length lines \<le> 4" using len by simp
  have Tsum: "T = (\<Sum>i\<leftarrow>lines. of_int (oi_quantity i) * P (oi_product_id i))"
    by (simp add: T_def exact_total_def P_def)
  from float_subtotal_error [of lines L P 0 0 0, OF a1 _ _ _ _ l4] obtain s' where
    s': "float_subtotal L lines (Float 0) = Float s'" "0 \<le> s'"
        "\<bar>s' - T\<bar> * 2 ^ 53 \<le> 4000 * of_nat (length lines)"
    by (auto simp: Tsum)
  from exact_sum_cents [OF a2] obtain k where
    k: "0 \<le> k" "T * 100 = of_int k"
    by (auto simp: Tsum)
  have Tk: "T = of_int k / 100" using k(2) by (simp add: field_simps)
  define e where "e = \<bar>s' - T\<bar>"
  have "(of_nat (length lines) :: rat) \<le> 4" using len by simp
  with s'(3) have "e * 2 ^ 53 \<le> 16000" unfolding e_def by linarith
  then have b: "e * 9007199254740992 \<le> 16000" by simp
  have "s' * 100 - of_int k = (s' - T) * 100"
    unfolding k(2) [symmetric] by (simp only: left_diff_distrib)
  then have "\<bar>s' * 100 - of_int k\<bar> = e * 100"
    unfolding e_def by (simp only: abs_mult)
  with b have near: "\<bar>s' * 100 - of_int k\<bar> < 1 / 2" by linarith
  have "o_total_amount ord = two_decimals s'"
    unfolding tot s'(1) by (rule format_2f.simps)
  also have "\<dots> = two_decimals (of_int k / 100)"
    using s'(2) k(1) near by (rule two_decimals_near)
  finally have c1: "o_total_amount ord = two_decimals T" unfolding Tk .
  have "decimal_of_str (two_decimals (of_int k / 100)) = Some (round_2dp (of_int k / 100))"
    unfolding round_2dp_cents using k(1) by (rule decimal_of_two_decimals)
  then have c2: "decimal_of_str (o_total_amount ord) = Some (round_2dp T)"
    unfolding c1 Tk .
  show ?thesis
    unfolding d lines_def [symmetric] T_def [symmetric] using c1 c2 by (rule conjI)
qed

theorem order_total_exact_witness:
  "\<exists>d ord. generate_all 3 three_customer_rng example_clock = Inr d \<and>
     ord \<in> set (ds_orders d) \<and>
     length (order_lines (o_order_id ord) (ds_order_items d)) = 2 \<and>
     exact_total (ds_products d) (order_lines (o_order_id ord) (ds_order_items d)) = 8399 / 100 \<and>
     o_total_amount ord = ''83.99'' \<and>
     o_total_amount ord =
       two_decimals (exact_total (ds_products d)
         (order_lines (o_order_id ord) (ds_order_items d))) \<and>
     decimal_of_str (o_total_amount ord) =
       Some (round_2dp (exact_total (ds_products d)
         (order_lines (o_order_id ord) (ds_order_items d))))"
proof -
  let ?ord = "\<lparr>o_order_id = 1, o_customer_id = 1, o_order_date = ''2026-11-03'',
          o_total_amount = ''83.99''\<rparr>"
  let ?d = "projr (generate_all 3 three_customer_rng example_clock)"
  have e: "generate_all 3 three_customer_rng example_clock = Inr ?d"
    by (simp add: three_customer_run)
  have m: "?ord \<in> set (ds_orders ?d)" by (simp add: three_customer_run)
  have x: "exact_total generate_products
      [\<lparr>oi_order_item_id = 1, oi_order_id = 1, oi_product_id = 11, oi_quantity = 2\<rparr>,
       \<lparr>oi_order_item_id = 2, oi_order_id = 1, oi_product_id = 2, oi_quantity = 1\<rparr>] = 8399 / 100"
    unfolding generate_products_explicit by code_simp
  have l: "order_lines (o_order_id ?ord) (ds_order_items ?d) =
      [\<lparr>oi_order_item_id = 1, oi_order_id = 1, oi_product_id = 11, oi_quantity = 2\<rparr>,
       \<lparr>oi_order_item_id = 2, oi_order_id = 1, oi_product_id = 2, oi_quantity = 1\<rparr>]"
    by (simp add: three_customer_run order_lines_def)
  have p: "ds_products ?d = generate_products" by (simp add: three_customer_run)
  note t = order_total_exact [OF e m]
  show ?thesis
  proof (intro exI conjI)
    show "generate_all 3 three_customer_rng example_clock = Inr ?d" by (rule e)
    show "?ord \<in> set (ds_orders ?d)" by (rule m)
    show "length (order_lines (o_order_id ?ord) (ds_order_items ?d)) = 2"
      unfolding l by simp
    show "exact_total (ds_products ?d) (order_lines (o_order_id ?ord) (ds_order_items ?d)) =
        8399 / 100"
      unfolding l p by (rule x)
    show "o_total_amount ?ord = ''83.99''" by simp
    show "o_total_amount ?ord =
       two_decimals (exact_total (ds_products ?d)
         (order_lines (o_order_id ?ord) (ds_order_items ?d)))"
      by (rule t [THEN conjunct1])
    show "decimal_of_str (o_total_amount ?ord) =
       Some (round_2dp (exact_total (ds_products ?d)
         (order_lines (o_order_id ?ord) (ds_order_items ?d))))"
      by (rule t [THEN conjunct2])
  qed
qed









lemma shared_name_customers:
  "generate_customers 3 shared_name_rng =
     Inr ([\<lparr>c_customer_id = 1, c_name = ''Alex Smith'', c_email = ''alex.smith@example.com'',
            c_city = ''New York''\<rparr>,
           \<lparr>c_customer_id = 2, c_name = ''Jordan Johnson'',
            c_email = ''jordan.johnson@example.com'', c_city = ''San Francisco''\<rparr>,
           \<lparr>c_customer_id = 3, c_name = ''Alex Smith'', c_email = ''alex.smith@example.com'',
            c_city = ''Chicago''\<rparr>],
          (fst shared_name_rng, 9))"
  by (simp add: run_defs shared_name_rng_def draws_of_def example_leaves
      three_customer_leaves upt_rec)

lemma shared_name_ingest:
  "ingest_customers (write_customers_csv
     [\<lparr>c_customer_id = 1, c_name = ''Alex Smith'', c_email = ''alex.smith@example.com'',
            c_city = ''New York''\<rparr>,
           \<lparr>c_customer_id = 2, c_name = ''Jordan Johnson'',
            c_email = ''jordan.johnson@example.com'', c_city = ''San Francisco''\<rparr>,
           \<lparr>c_customer_id = 3, c_name = ''Alex Smith'', c_email = ''alex.smith@example.com'',
            c_city = ''Chicago''\<rparr>]) =
     Inr [\<lparr>cr_customer_id = 2, cr_name = ''Jordan Johnson'',
            cr_email = ''jordan.johnson@example.com'', cr_city = ''San Francisco''\<rparr>,
          \<lparr>cr_customer_id = 3, cr_name = ''Alex Smith'', cr_email = ''alex.smith@example.com'',
            cr_city = ''Chicago''\<rparr>]"
  by code_simp

text \<open>
  Claim C3. Three customers are generated, the first and the third with the same first and
  last name, hence with the same email. Written to the flat file and loaded, they leave two
  rows in the table \<open>customers\<close>, not three: the \<open>UNIQUE\<close> constraint on \<open>email\<close>
  makes \<open>INSERT OR REPLACE\<close> delete the first customer when the third is inserted.
\<close>
theorem ingest_shared_name_loses_row:
  "\<exists>cs g. generate_customers 3 shared_name_rng = Inr (cs, g) \<and> length cs = 3 \<and>
     length (load_csv_rows (write_customers_csv cs)) = 3 \<and>
     ingest_customers (write_customers_csv cs) =
       Inr [\<lparr>cr_customer_id = 2, cr_name = ''Jordan Johnson'',
              cr_email = ''jordan.johnson@example.com'', cr_city = ''San Francisco''\<rparr>,
            \<lparr>cr_customer_id = 3, cr_name = ''Alex Smith'', cr_email = ''alex.smith@example.com'',
              cr_city = ''Chicago''\<rparr>]"
proof -
  let ?cs = "[\<lparr>c_customer_id = 1, c_name = ''Alex Smith'', c_email = ''alex.smith@example.com'',
            c_city = ''New York''\<rparr>,
           \<lparr>c_customer_id = 2, c_name = ''Jordan Johnson'',
            c_email = ''jordan.johnson@example.com'', c_city = ''San Francisco''\<rparr>,
           \<lparr>c_customer_id = 3, c_name = ''Alex Smith'', c_email = ''alex.smith@example.com'',
            c_city = ''Chicago''\<rparr>]"
  have a: "generate_customers 3 shared_name_rng = Inr (?cs, (fst shared_name_rng, 9))"
    by (rule shared_name_customers)
  have b: "length ?cs = 3" by simp
  have c: "length (load_csv_rows (write_customers_csv ?cs)) = 3"
    by (simp add: load_csv_rows_def write_customers_csv_def)
  show ?thesis
    by (intro exI conjI) (rule a, rule b, rule c, rule shared_name_ingest)
qed

lemma daterange_rng:
  assumes "daterange k c1 g = Inr (dt1, c1', g1)" and "daterange k c2 g = Inr (dt2, c2', g2)"
  shows "g1 = g2"
  using assms by (auto simp: daterange_def Let_def split: sum.splits prod.splits)

lemma one_order_same:
  assumes s: "one_order cu ps L s = Inr s'" and t: "one_order cu ps L t = Inr t'"
    and r: "same_but_dates s t"
  shows "same_but_dates s' t'"
proof -
  from s obtain dt1 c1 g1 k1 g2 ch1 g3 items1 sub1 n1 g4 where
    a: "daterange 120 (gen_clock s) (gen_rng s) = Inr (dt1, c1, g1)"
       "randint 1 4 g1 = Inr (k1, g2)" "sample ps k1 g2 = Inr (ch1, g3)"
       "items_loop ch1 L (next_order_id s) [] (Float 0) (next_order_item_id s) g3 =
          Inr (items1, sub1, n1, g4)"
       "orders s' = orders s @
          [\<lparr>o_order_id = next_order_id s, o_customer_id = c_customer_id cu,
            o_order_date = strftime_ymd dt1, o_total_amount = format_2f sub1\<rparr>]"
       "order_items s' = order_items s @ items1" "next_order_id s' = next_order_id s + 1"
       "next_order_item_id s' = n1" "gen_rng s' = g4"
    by (auto simp: one_order_def split: sum.splits prod.splits)
  from t obtain dt2 c2 h1 k2 h2 ch2 h3 items2 sub2 n2 h4 where
    b: "daterange 120 (gen_clock t) (gen_rng t) = Inr (dt2, c2, h1)"
       "randint 1 4 h1 = Inr (k2, h2)" "sample ps k2 h2 = Inr (ch2, h3)"
       "items_loop ch2 L (next_order_id t) [] (Float 0) (next_order_item_id t) h3 =
          Inr (items2, sub2, n2, h4)"
       "orders t' = orders t @
          [\<lparr>o_order_id = next_order_id t, o_customer_id = c_customer_id cu,
            o_order_date = strftime_ymd dt2, o_total_amount = format_2f sub2\<rparr>]"
       "order_items t' = order_items t @ items2" "next_order_id t' = next_order_id t + 1"
       "next_order_item_id t' = n2" "gen_rng t' = h4"
    by (auto simp: one_order_def split: sum.splits prod.splits)
  from r have e: "map undated (orders s) = map undated (orders t)"
    "order_items s = order_items t" "next_order_id s = next_order_id t"
    "next_order_item_id s = next_order_item_id t" "gen_rng s = gen_rng t"
    by (simp_all add: same_but_dates_def)
  from a(1) b(1) have g: "g1 = h1" unfolding e(5) by (rule daterange_rng)
  from a(2) b(2) have k: "k1 = k2" "g2 = h2" unfolding g by simp_all
  from a(3) b(3) have c: "ch1 = ch2" "g3 = h3" unfolding k by simp_all
  from a(4) b(4) have i: "items1 = items2" "sub1 = sub2" "n1 = n2" "g4 = h4"
    unfolding c e(3) e(4) by simp_all
  show ?thesis
    unfolding same_but_dates_def a(5-9) b(5-9)
    by (simp add: e i undated_def)
qed

lemma customer_orders_loop_same:
  "customer_orders_loop n cu ps L s = Inr s' \<Longrightarrow> customer_orders_loop n cu ps L t = Inr t' \<Longrightarrow>
   same_but_dates s t \<Longrightarrow> same_but_dates s' t'"
proof (induction n arbitrary: s t)
  case 0
  then show ?case by simp
next
  case (Suc n)
  from Suc.prems(1) obtain s1 where
    a: "one_order cu ps L s = Inr s1" "customer_orders_loop n cu ps L s1 = Inr s'"
    by (auto split: sum.splits)
  from Suc.prems(2) obtain t1 where
    b: "one_order cu ps L t = Inr t1" "customer_orders_loop n cu ps L t1 = Inr t'"
    by (auto split: sum.splits)
  from a(1) b(1) Suc.prems(3) have "same_but_dates s1 t1" by (rule one_order_same)
  with a(2) b(2) show ?case by (rule Suc.IH)
qed

lemma orders_loop_same:
  "orders_loop cs ps L s = Inr s' \<Longrightarrow> orders_loop cs ps L t = Inr t' \<Longrightarrow>
   same_but_dates s t \<Longrightarrow> same_but_dates s' t'"
proof (induction cs arbitrary: s t)
  case Nil
  then show ?case by simp
next
  case (Cons cu cs)
  from Cons.prems(1) obtain k g1 s1 where
    a: "randint 0 3 (gen_rng s) = Inr (k, g1)"
       "customer_orders_loop (nat k) cu ps L (s\<lparr>gen_rng := g1\<rparr>) = Inr s1"
       "orders_loop cs ps L s1 = Inr s'"
    by (auto split: sum.splits prod.splits)
  from Cons.prems(2) obtain k' h1 t1 where
    b: "randint 0 3 (gen_rng t) = Inr (k', h1)"
       "customer_orders_loop (nat k') cu ps L (t\<lparr>gen_rng := h1\<rparr>) = Inr t1"
       "orders_loop cs ps L t1 = Inr t'"
    by (auto split: sum.splits prod.splits)
  from Cons.prems(3) have r: "gen_rng s = gen_rng t" by (simp add: same_but_dates_def)
  from a(1) b(1) have e: "k' = k" "h1 = g1" unfolding r by simp_all
  from Cons.prems(3) have "same_but_dates (s\<lparr>gen_rng := g1\<rparr>) (t\<lparr>gen_rng := g1\<rparr>)"
    by (simp add: same_but_dates_def)
  with a(2) b(2) have "same_but_dates s1 t1"
    unfolding e by (rule customer_orders_loop_same)
  with a(3) b(3) show ?case by (rule Cons.IH)
qed

lemma generate_orders_same:
  assumes "generate_orders cs ps g c1 = Inr s" and "generate_orders cs ps g c2 = Inr t"
  shows "same_but_dates s t"
proof -
  from assms(1) obtain L where
    L: "product_lookup_loop ps Map.empty = Inr L"
    by (auto simp: generate_orders_def split: sum.splits)
  from assms have x:
    "orders_loop cs ps L \<lparr>orders = [], order_items = [], next_order_id = 1,
        next_order_item_id = 1, gen_rng = g, gen_clock = c1\<rparr> = Inr s"
    "orders_loop cs ps L \<lparr>orders = [], order_items = [], next_order_id = 1,
        next_order_item_id = 1, gen_rng = g, gen_clock = c2\<rparr> = Inr t"
    by (simp_all add: generate_orders_def L)
  have "same_but_dates
      \<lparr>orders = [], order_items = [], next_order_id = 1,
        next_order_item_id = 1, gen_rng = g, gen_clock = c1\<rparr>
      \<lparr>orders = [], order_items = [], next_order_id = 1,
        next_order_item_id = 1, gen_rng = g, gen_clock = c2\<rparr>"
    by (simp add: same_but_dates_def)
  with x show ?thesis by (rule orders_loop_same)
qed

lemma undated_blank:
  assumes "map undated xs = map undated ys"
  shows "map (\<lambda>ord. ord\<lparr>o_order_date := []\<rparr>) xs = map (\<lambda>ord. ord\<lparr>o_order_date := []\<rparr>) ys"
  using assms
proof (induction xs arbitrary: ys)
  case Nil
  then show ?case by simp
next
  case (Cons x xs)
  then obtain y ys' where y: "ys = y # ys'" by (cases ys) auto
  with Cons.prems have "x\<lparr>o_order_date := []\<rparr> = y\<lparr>o_order_date := []\<rparr>"
    by (simp add: undated_def order.equality)
  with Cons y show ?case by simp
qed

text \<open>
  Claim C2. Two runs with the same customer count and the same random draws, whatever the
  clock readings of each: the files of the customers, the products, the order items and the
  reviews are the same text, and the orders agree in everything but the order date, which is
  computed from \<open>datetime.now()\<close>: with the date column emptied the two orders files are
  the same text.
\<close>
theorem same_draws_same_files:
  assumes "generate_all n g c1 = Inr d1" and "generate_all n g c2 = Inr d2"
  shows "customers_csv d1 = customers_csv d2 \<and> products_csv d1 = products_csv d2 \<and>
     order_items_csv d1 = order_items_csv d2 \<and> reviews_csv d1 = reviews_csv d2 \<and>
     map undated (ds_orders d1) = map undated (ds_orders d2) \<and>
     orders_csv (blank_dates d1) = orders_csv (blank_dates d2)"
proof -
  from generate_all_Inr [OF assms(1)] obtain cs g1 s rs g3 where
    a: "generate_customers n g = Inr (cs, g1)"
       "generate_orders cs generate_products g1 c1 = Inr s"
       "generate_reviews cs generate_products (gen_rng s) = Inr (rs, g3)"
       "d1 = \<lparr>ds_customers = cs, ds_products = generate_products,
          ds_orders = orders s, ds_order_items = order_items s, ds_reviews = rs\<rparr>"
    by blast
  from generate_all_Inr [OF assms(2)] obtain cs' g1' t rs' g3' where
    b: "generate_customers n g = Inr (cs', g1')"
       "generate_orders cs' generate_products g1' c2 = Inr t"
       "generate_reviews cs' generate_products (gen_rng t) = Inr (rs', g3')"
       "d2 = \<lparr>ds_customers = cs', ds_products = generate_products,
          ds_orders = orders t, ds_order_items = order_items t, ds_reviews = rs'\<rparr>"
    by blast
  from a(1) b(1) have e: "cs' = cs" "g1' = g1" by simp_all
  from a(2) b(2) have r: "same_but_dates s t" unfolding e by (rule generate_orders_same)
  then have o: "map undated (orders s) = map undated (orders t)"
    "order_items s = order_items t" "gen_rng s = gen_rng t"
    by (simp_all add: same_but_dates_def)
  from a(3) b(3) have v: "rs' = rs" unfolding e o(3) by simp
  have "map (\<lambda>ord. ord\<lparr>o_order_date := []\<rparr>) (orders s) =
      map (\<lambda>ord. ord\<lparr>o_order_date := []\<rparr>) (orders t)"
    using o(1) by (intro undated_blank)
  then show ?thesis
    unfolding a(4) b(4) e v
    by (simp add: customers_csv_def products_csv_def order_items_csv_def reviews_csv_def
        orders_csv_def blank_dates_def o)
qed

lemma next_day_leaves:
  "strftime_ymd (Datetime 1793836800000000) = ''2026-11-05''"
  by code_simp

lemma three_customer_orders_next_day:
  "\<exists>st. generate_orders
       [\<lparr>c_customer_id = 1, c_name = ''Alex Smith'', c_email = ''alex.smith@example.com'',
            c_city = ''New York''\<rparr>,
           \<lparr>c_customer_id = 2, c_name = ''Jordan Johnson'',
            c_email = ''jordan.johnson@example.com'', c_city = ''San Francisco''\<rparr>,
           \<lparr>c_customer_id = 3, c_name = ''Taylor Williams'',
            c_email = ''taylor.williams@example.com'', c_city = ''Chicago''\<rparr>]
       generate_products (fst three_customer_rng, 9) next_day_clock = Inr st \<and>
     orders st =
       [\<lparr>o_order_id = 1, o_customer_id = 1, o_order_date = ''2026-11-04'',
          o_total_amount = ''83.99''\<rparr>,
        \<lparr>o_order_id = 2, o_customer_id = 1, o_order_date = ''2026-11-03'',
          o_total_amount = ''239.97''\<rparr>,
        \<lparr>o_order_id = 3, o_customer_id = 3, o_order_date = ''2026-11-05'',
          o_total_amount = ''78.00''\<rparr>] \<and>
     order_items st =
       [\<lparr>oi_order_item_id = 1, oi_order_id = 1, oi_product_id = 11, oi_quantity = 2\<rparr>,
        \<lparr>oi_order_item_id = 2, oi_order_id = 1, oi_product_id = 2, oi_quantity = 1\<rparr>,
        \<lparr>oi_order_item_id = 3, oi_order_id = 2, oi_product_id = 1, oi_quantity = 3\<rparr>,
        \<lparr>oi_order_item_id = 4, oi_order_id = 3, oi_product_id = 17, oi_quantity = 1\<rparr>,
        \<lparr>oi_order_item_id = 5, oi_order_id = 3, oi_product_id = 18, oi_quantity = 1\<rparr>,
        \<lparr>oi_order_item_id = 6, oi_order_id = 3, oi_product_id = 20, oi_quantity = 1\<rparr>] \<and>
     gen_rng st = (fst three_customer_rng, 33)"
proof -
  from catalog_lookup obtain L where
    L: "product_lookup_loop generate_products Map.empty = Inr L" and
    Ls: "L 1 = Some (Float (5628795846771343 / 70368744177664))"
        "L 2 = Some (Float (5626684784446013 / 281474976710656))"
        "L 11 = Some (Float 32)" "L 17 = Some (Float 22)" "L 18 = Some (Float 30)"
        "L 20 = Some (Float 26)"
    by auto
  have step: "generate_orders cs generate_products g c =
      orders_loop cs generate_products L
        \<lparr>orders = [], order_items = [], next_order_id = 1, next_order_item_id = 1,
         gen_rng = g, gen_clock = c\<rparr>" for cs g c
    by (simp add: generate_orders_def L)
  show ?thesis
    unfolding step draws_of_position
    by (simp add: run_defs draws_of_def next_day_clock_def example_leaves next_day_leaves
        three_customer_leaves Ls generate_products_explicit sample_pool_numeral
        customer_orders_loop_numeral)
qed

lemma three_customer_run_next_day:
  "generate_all 3 three_customer_rng next_day_clock =
     Inr \<lparr>ds_customers = [\<lparr>c_customer_id = 1, c_name = ''Alex Smith'', c_email = ''alex.smith@example.com'',
            c_city = ''New York''\<rparr>,
           \<lparr>c_customer_id = 2, c_name = ''Jordan Johnson'',
            c_email = ''jordan.johnson@example.com'', c_city = ''San Francisco''\<rparr>,
           \<lparr>c_customer_id = 3, c_name = ''Taylor Williams'',
            c_email = ''taylor.williams@example.com'', c_city = ''Chicago''\<rparr>],
          ds_products = generate_products,
          ds_orders = [\<lparr>o_order_id = 1, o_customer_id = 1, o_order_date = ''2026-11-04'',
          o_total_amount = ''83.99''\<rparr>,
        \<lparr>o_order_id = 2, o_customer_id = 1, o_order_date = ''2026-11-03'',
          o_total_amount = ''239.97''\<rparr>,
        \<lparr>o_order_id = 3, o_customer_id = 3, o_order_date = ''2026-11-05'',
          o_total_amount = ''78.00''\<rparr>],
          ds_order_items = [\<lparr>oi_order_item_id = 1, oi_order_id = 1, oi_product_id = 11, oi_quantity = 2\<rparr>,
        \<lparr>oi_order_item_id = 2, oi_order_id = 1, oi_product_id = 2, oi_quantity = 1\<rparr>,
        \<lparr>oi_order_item_id = 3, oi_order_id = 2, oi_product_id = 1, oi_quantity = 3\<rparr>,
        \<lparr>oi_order_item_id = 4, oi_order_id = 3, oi_product_id = 17, oi_quantity = 1\<rparr>,
        \<lparr>oi_order_item_id = 5, oi_order_id = 3, oi_product_id = 18, oi_quantity = 1\<rparr>,
        \<lparr>oi_order_item_id = 6, oi_order_id = 3, oi_product_id = 20, oi_quantity = 1\<rparr>],
          ds_reviews = [\<lparr>r_review_id = 1, r_customer_id = 1, r_product_id = 1, r_rating = 1,
            r_comment = ''Loved it! Highly recommend.''\<rparr>,
           \<lparr>r_review_id = 2, r_customer_id = 2, r_product_id = 2, r_rating = 5,
            r_comment = ''Works as expected. Would buy again.''\<rparr>]\<rparr>"
proof -
  from three_customer_orders_next_day obtain st where
    st: "generate_orders [\<lparr>c_customer_id = 1, c_name = ''Alex Smith'', c_email = ''alex.smith@example.com'',
            c_city = ''New York''\<rparr>,
           \<lparr>c_customer_id = 2, c_name = ''Jordan Johnson'',
            c_email = ''jordan.johnson@example.com'', c_city = ''San Francisco''\<rparr>,
           \<lparr>c_customer_id = 3, c_name = ''Taylor Williams'',
            c_email = ''taylor.williams@example.com'', c_city = ''Chicago''\<rparr>] generate_products (fst three_customer_rng, 9) next_day_clock = Inr st"
      "orders st = [\<lparr>o_order_id = 1, o_customer_id = 1, o_order_date = ''2026-11-04'',
          o_total_amount = ''83.99''\<rparr>,
        \<lparr>o_order_id = 2, o_customer_id = 1, o_order_date = ''2026-11-03'',
          o_total_amount = ''239.97''\<rparr>,
        \<lparr>o_order_id = 3, o_customer_id = 3, o_order_date = ''2026-11-05'',
          o_total_amount = ''78.00''\<rparr>]"
      "order_items st = [\<lparr>oi_order_item_id = 1, oi_order_id = 1, oi_product_id = 11, oi_quantity = 2\<rparr>,
        \<lparr>oi_order_item_id = 2, oi_order_id = 1, oi_product_id = 2, oi_quantity = 1\<rparr>,
        \<lparr>oi_order_item_id = 3, oi_order_id = 2, oi_product_id = 1, oi_quantity = 3\<rparr>,
        \<lparr>oi_order_item_id = 4, oi_order_id = 3, oi_product_id = 17, oi_quantity = 1\<rparr>,
        \<lparr>oi_order_item_id = 5, oi_order_id = 3, oi_product_id = 18, oi_quantity = 1\<rparr>,
        \<lparr>oi_order_item_id = 6, oi_order_id = 3, oi_product_id = 20, oi_quantity = 1\<rparr>]"
      "gen_rng st = (fst three_customer_rng, 33)"
    by blast
  from three_customer_reviews obtain g' where
    r: "generate_reviews [\<lparr>c_customer_id = 1, c_name = ''Alex Smith'', c_email = ''alex.smith@example.com'',
            c_city = ''New York''\<rparr>,
           \<lparr>c_customer_id = 2, c_name = ''Jordan Johnson'',
            c_email = ''jordan.johnson@example.com'', c_city = ''San Francisco''\<rparr>,
           \<lparr>c_customer_id = 3, c_name = ''Taylor Williams'',
            c_email = ''taylor.williams@example.com'', c_city = ''Chicago''\<rparr>] generate_products (fst three_customer_rng, 33) = Inr ([\<lparr>r_review_id = 1, r_customer_id = 1, r_product_id = 1, r_rating = 1,
            r_comment = ''Loved it! Highly recommend.''\<rparr>,
           \<lparr>r_review_id = 2, r_customer_id = 2, r_product_id = 2, r_rating = 5,
            r_comment = ''Works as expected. Would buy again.''\<rparr>], g')"
    by blast
  show ?thesis
    by (simp add: generate_all_def three_customers st r)
qed

theorem same_draws_same_files_witness:
  "\<exists>d1 d2. generate_all 3 three_customer_rng example_clock = Inr d1 \<and>
     generate_all 3 three_customer_rng next_day_clock = Inr d2 \<and>
     map o_order_date (ds_orders d1) = [''2026-11-03'', ''2026-11-02'', ''2026-11-04''] \<and>
     map o_order_date (ds_orders d2) = [''2026-11-04'', ''2026-11-03'', ''2026-11-05''] \<and>
     map undated (ds_orders d1) = [(1, 1, ''83.99''), (2, 1, ''239.97''), (3, 3, ''78.00'')] \<and>
     customers_csv d1 = customers_csv d2 \<and> products_csv d1 = products_csv d2 \<and>
     order_items_csv d1 = order_items_csv d2 \<and> reviews_csv d1 = reviews_csv d2 \<and>
     map undated (ds_orders d1) = map undated (ds_orders d2) \<and>
     orders_csv (blank_dates d1) = orders_csv (blank_dates d2)"
proof -
  let ?d1 = "projr (generate_all 3 three_customer_rng example_clock)"
  let ?d2 = "projr (generate_all 3 three_customer_rng next_day_clock)"
  have e1: "generate_all 3 three_customer_rng example_clock = Inr ?d1"
    by (simp add: three_customer_run)
  have e2: "generate_all 3 three_customer_rng next_day_clock = Inr ?d2"
    by (simp add: three_customer_run_next_day)
  note t = same_draws_same_files [OF e1 e2]
  have a: "map o_order_date (ds_orders ?d1) = [''2026-11-03'', ''2026-11-02'', ''2026-11-04'']"
    "map undated (ds_orders ?d1) = [(1, 1, ''83.99''), (2, 1, ''239.97''), (3, 3, ''78.00'')]"
    by (simp_all add: three_customer_run undated_def)
  have b: "map o_order_date (ds_orders ?d2) = [''2026-11-04'', ''2026-11-03'', ''2026-11-05'']"
    by (simp add: three_customer_run_next_day)
  show ?thesis
    using e1 e2 a b t by (intro exI conjI) (elim conjE, assumption)+
qed

end
